theory Spec2Isabelle
  imports Complex_Main
begin

section \<open>JavaScript numbers\<close>

text \<open>
  The capture-readiness logic of \<^verbatim>\<open>DataInputScreen\<close>
  (\<^verbatim>\<open>src/frontend/screens/LoginScreen.js\<close>) computes with JavaScript numbers.
  A number is modelled as a real (a finite value), one of the two infinities, or NaN.
  The special values follow IEEE 754 as JavaScript applies it.  The operators of this
  section give the exact result of an operation on finite values; the rounding to the
  nearest double, and with it the overflow to infinity, is the subject of the section on
  double precision below.  The two zeros are identified (a division by zero divides by
  \<open>+0\<close>).
\<close>

datatype jsnum = Fin real | PInf | NInf | NaN

instantiation jsnum :: "{plus, minus, times, inverse}"
begin

fun plus_jsnum :: "jsnum \<Rightarrow> jsnum \<Rightarrow> jsnum" where
  "plus_jsnum NaN b = NaN"
| "plus_jsnum a NaN = NaN"
| "plus_jsnum (Fin a) (Fin b) = Fin (a + b)"
| "plus_jsnum PInf NInf = NaN"
| "plus_jsnum NInf PInf = NaN"
| "plus_jsnum PInf b = PInf"
| "plus_jsnum a PInf = PInf"
| "plus_jsnum NInf b = NInf"
| "plus_jsnum a NInf = NInf"

fun minus_jsnum :: "jsnum \<Rightarrow> jsnum \<Rightarrow> jsnum" where
  "minus_jsnum NaN b = NaN"
| "minus_jsnum a NaN = NaN"
| "minus_jsnum (Fin a) (Fin b) = Fin (a - b)"
| "minus_jsnum PInf PInf = NaN"
| "minus_jsnum NInf NInf = NaN"
| "minus_jsnum PInf b = PInf"
| "minus_jsnum a NInf = PInf"
| "minus_jsnum NInf b = NInf"
| "minus_jsnum a PInf = NInf"

fun times_jsnum :: "jsnum \<Rightarrow> jsnum \<Rightarrow> jsnum" where
  "times_jsnum NaN b = NaN"
| "times_jsnum a NaN = NaN"
| "times_jsnum (Fin a) (Fin b) = Fin (a * b)"
| "times_jsnum (Fin a) PInf = (if a = 0 then NaN else if 0 < a then PInf else NInf)"
| "times_jsnum (Fin a) NInf = (if a = 0 then NaN else if 0 < a then NInf else PInf)"
| "times_jsnum PInf (Fin b) = (if b = 0 then NaN else if 0 < b then PInf else NInf)"
| "times_jsnum NInf (Fin b) = (if b = 0 then NaN else if 0 < b then NInf else PInf)"
| "times_jsnum PInf PInf = PInf"
| "times_jsnum PInf NInf = NInf"
| "times_jsnum NInf PInf = NInf"
| "times_jsnum NInf NInf = PInf"

fun divide_jsnum :: "jsnum \<Rightarrow> jsnum \<Rightarrow> jsnum" where
  "divide_jsnum NaN b = NaN"
| "divide_jsnum a NaN = NaN"
| "divide_jsnum (Fin a) (Fin b) =
     (if b = 0 then (if a = 0 then NaN else if 0 < a then PInf else NInf) else Fin (a / b))"
| "divide_jsnum (Fin a) b = Fin 0"
| "divide_jsnum PInf (Fin b) = (if 0 \<le> b then PInf else NInf)"
| "divide_jsnum NInf (Fin b) = (if 0 \<le> b then NInf else PInf)"
| "divide_jsnum a b = NaN"

definition inverse_jsnum :: "jsnum \<Rightarrow> jsnum" where
  "inverse_jsnum a = Fin 1 div a"

instance ..

end

text \<open>\<^verbatim>\<open>Math.sqrt\<close>: NaN below zero.\<close>

fun Math_sqrt :: "jsnum \<Rightarrow> jsnum" where
  "Math_sqrt (Fin a) = (if a < 0 then NaN else Fin (sqrt a))"
| "Math_sqrt PInf = PInf"
| "Math_sqrt NInf = NaN"
| "Math_sqrt NaN = NaN"

fun Math_abs :: "jsnum \<Rightarrow> jsnum" where
  "Math_abs (Fin a) = Fin \<bar>a\<bar>"
| "Math_abs PInf = PInf"
| "Math_abs NInf = PInf"
| "Math_abs NaN = NaN"

text \<open>\<^verbatim>\<open>Math.max\<close> and \<^verbatim>\<open>Math.min\<close> of two arguments: NaN as soon as one is NaN.\<close>

fun Math_max :: "jsnum \<Rightarrow> jsnum \<Rightarrow> jsnum" where
  "Math_max NaN b = NaN"
| "Math_max a NaN = NaN"
| "Math_max PInf b = PInf"
| "Math_max a PInf = PInf"
| "Math_max NInf b = b"
| "Math_max a NInf = a"
| "Math_max (Fin a) (Fin b) = Fin (max a b)"

fun Math_min :: "jsnum \<Rightarrow> jsnum \<Rightarrow> jsnum" where
  "Math_min NaN b = NaN"
| "Math_min a NaN = NaN"
| "Math_min NInf b = NInf"
| "Math_min a NInf = NInf"
| "Math_min PInf b = b"
| "Math_min a PInf = a"
| "Math_min (Fin a) (Fin b) = Fin (min a b)"

fun Number_isFinite :: "jsnum \<Rightarrow> bool" where
  "Number_isFinite (Fin a) = True"
| "Number_isFinite v = False"

text \<open>The comparison \<^verbatim>\<open>a >= b\<close>: false as soon as one side is NaN.\<close>

fun js_ge :: "jsnum \<Rightarrow> jsnum \<Rightarrow> bool" where
  "js_ge NaN b = False"
| "js_ge a NaN = False"
| "js_ge PInf b = True"
| "js_ge a NInf = True"
| "js_ge NInf b = False"
| "js_ge a PInf = False"
| "js_ge (Fin a) (Fin b) = (b \<le> a)"

text \<open>\<^verbatim>\<open>v || 0\<close> on a number: the falsy numbers are zero and NaN.\<close>

fun or0 :: "jsnum \<Rightarrow> jsnum" where
  "or0 (Fin a) = Fin a"
| "or0 NaN = Fin 0"
| "or0 v = v"

section \<open>Alignment scoring\<close>

text \<open>
  A motion sample \<^verbatim>\<open>{x, y, z}\<close> as the accelerometer delivers it: the three
  components are numbers, so the defaults of the destructuring pattern of
  \<^verbatim>\<open>deriveAlignmentScore\<close>, for components that are undefined, do not apply.
  The functions of this section compute with the exact operators; the section on double
  precision repeats them with every result rounded.
\<close>

record sample =
  sample_x :: jsnum
  sample_y :: jsnum
  sample_z :: jsnum

definition AUTO_CAPTURE_START_THRESHOLD :: jsnum where
  "AUTO_CAPTURE_START_THRESHOLD = Fin 0.55"

definition AUTO_CAPTURE_CANCEL_THRESHOLD :: jsnum where
  "AUTO_CAPTURE_CANCEL_THRESHOLD = Fin 0.35"

definition AUTO_CAPTURE_START_MS :: int where
  "AUTO_CAPTURE_START_MS = 1200"

definition MAX_ACCEL_DELTA :: jsnum where
  "MAX_ACCEL_DELTA = Fin 0.35"

definition FIDUCIAL_CHECK_INTERVAL_MS :: int where
  "FIDUCIAL_CHECK_INTERVAL_MS = 450"

definition MIN_FIDUCIALS_FOR_CAPTURE :: int where
  "MIN_FIDUCIALS_FOR_CAPTURE = 4"

text \<open>\<^verbatim>\<open>deriveAlignmentScore\<close>, lines 579 to 589.\<close>

definition deriveAlignmentScore :: "sample \<Rightarrow> jsnum" where
  "deriveAlignmentScore d =
     (let x = sample_x d; y = sample_y d; z = sample_z d;
          magnitude = Math_max (Fin 0.001) (Math_sqrt (x * x + y * y + z * z));
          normX = x / magnitude;
          normY = y / magnitude;
          normZ = z / magnitude;
          gravityDrift = Math_min (Fin 1) (Math_abs (magnitude - Fin 1));
          tiltPenalty = Math_min (Fin 1) (Math_abs (Math_abs normZ - Fin 1));
          lateralMotion = Math_min (Fin 1) (Math_sqrt (normX * normX + normY * normY));
          score = Fin 1 - (Fin 0.5 * tiltPenalty + Fin 0.3 * gravityDrift + Fin 0.2 * lateralMotion)
      in Math_max (Fin 0) (Math_min (Fin 1) score))"

text \<open>
  \<^verbatim>\<open>computeJitterPenalty\<close>, lines 591 to 600.  The previous sample is \<^verbatim>\<open>null\<close>
  until the first sample of a session has been stored; the current one is always an object.
\<close>

definition computeJitterPenalty :: "sample option \<Rightarrow> sample \<Rightarrow> jsnum" where
  "computeJitterPenalty previousSample currentSample =
     (case previousSample of
        None \<Rightarrow> Fin 0
      | Some p \<Rightarrow>
          (let dx = or0 (sample_x currentSample) - or0 (sample_x p);
               dy = or0 (sample_y currentSample) - or0 (sample_y p);
               dz = or0 (sample_z currentSample) - or0 (sample_z p);
               delta = Math_sqrt (dx * dx + dy * dy + dz * dz)
           in Math_min (Fin 1) (delta / MAX_ACCEL_DELTA)))"

text \<open>
  The accelerometer listener, lines 839 to 845, on the two values it reads and writes:
  the last sample and the smoothed score.  \<open>composite\<close> is the per-sample value,
  \<open>smooth\<close> the updater passed to \<^verbatim>\<open>setAlignmentScore\<close>.
\<close>

definition composite :: "sample option \<Rightarrow> sample \<Rightarrow> jsnum" where
  "composite lastSample d =
     (let baseScore = deriveAlignmentScore d;
          jitterPenalty = computeJitterPenalty lastSample d * Fin 0.45
      in Math_max (Fin 0) (Math_min (Fin 1) (baseScore - jitterPenalty)))"

definition smooth :: "jsnum \<Rightarrow> jsnum \<Rightarrow> jsnum" where
  "smooth c prev = (if Number_isFinite prev then prev * Fin 0.55 + c * Fin 0.45 else c)"

section \<open>Double precision\<close>

text \<open>
  The finite JavaScript numbers are the IEEE 754 binary64 values: the integer multiples
  \<open>n * 2 ^ (e - 52)\<close> of the unit of their binade \<open>e\<close>, with \<open>n\<close> below \<open>2 ^ 53\<close> in size and
  \<open>e\<close> from -1022 to 1023.  \<open>rne\<close> rounds a real to the nearest integer, and to the even one
  of two integers that are equally near.  \<open>binade x\<close> is the exponent \<open>e\<close> with
  \<open>2 ^ e \<le> \<bar>x\<bar> < 2 ^ (e + 1)\<close>, and -1022 for the subnormal numbers below.  \<open>nearest64 x\<close>
  is the multiple of the unit of that binade that is nearest to \<open>x\<close>, and \<open>binary64 x\<close> the
  JavaScript number it gives: an infinity when it has reached \<open>2 ^ 1024\<close> in size.
\<close>

definition rne :: "real \<Rightarrow> int" where
  "rne q = (let f = \<lfloor>q\<rfloor> in
     if q - of_int f < 1 / 2 then f
     else if 1 / 2 < q - of_int f then f + 1
     else if even f then f else f + 1)"

definition binade :: "real \<Rightarrow> int" where
  "binade x = max (- 1022) \<lfloor>log 2 \<bar>x\<bar>\<rfloor>"

definition nearest64 :: "real \<Rightarrow> real" where
  "nearest64 x =
     (if x = 0 then 0
      else of_int (rne (x / 2 powi (binade x - 52))) * 2 powi (binade x - 52))"

definition binary64 :: "real \<Rightarrow> jsnum" where
  "binary64 x =
     (let r = nearest64 x
      in if 2 powi 1024 \<le> r then PInf else if r \<le> - (2 powi 1024) then NInf else Fin r)"

text \<open>
  An operation of JavaScript delivers the exact result, as the operators on \<open>jsnum\<close> give
  it, rounded when it is finite; a decimal literal denotes the double nearest to it.
  The rounding \<open>rd\<close> is a parameter: with \<open>binary64\<close> the functions below compute as the
  program does, with \<open>Fin\<close>, which rounds nothing, they are the functions of the section
  before.  \<^verbatim>\<open>Math.sqrt\<close> is taken to round correctly, as the engines implement it;
  \<^verbatim>\<open>Math.abs\<close>, \<^verbatim>\<open>Math.max\<close> and \<^verbatim>\<open>Math.min\<close> are exact.
\<close>

definition rounded :: "(real \<Rightarrow> jsnum) \<Rightarrow> jsnum \<Rightarrow> jsnum" where
  "rounded rd v = (case v of Fin r \<Rightarrow> rd r | _ \<Rightarrow> v)"

definition fadd :: "(real \<Rightarrow> jsnum) \<Rightarrow> jsnum \<Rightarrow> jsnum \<Rightarrow> jsnum" where
  "fadd rd a b = rounded rd (a + b)"

definition fsub :: "(real \<Rightarrow> jsnum) \<Rightarrow> jsnum \<Rightarrow> jsnum \<Rightarrow> jsnum" where
  "fsub rd a b = rounded rd (a - b)"

definition fmul :: "(real \<Rightarrow> jsnum) \<Rightarrow> jsnum \<Rightarrow> jsnum \<Rightarrow> jsnum" where
  "fmul rd a b = rounded rd (a * b)"

definition fdiv :: "(real \<Rightarrow> jsnum) \<Rightarrow> jsnum \<Rightarrow> jsnum \<Rightarrow> jsnum" where
  "fdiv rd a b = rounded rd (a / b)"

definition fsqrt :: "(real \<Rightarrow> jsnum) \<Rightarrow> jsnum \<Rightarrow> jsnum" where
  "fsqrt rd a = rounded rd (Math_sqrt a)"

text \<open>\<^verbatim>\<open>deriveAlignmentScore\<close>, lines 579 to 589, with every result rounded.\<close>

definition deriveAlignmentScore_fp :: "(real \<Rightarrow> jsnum) \<Rightarrow> sample \<Rightarrow> jsnum" where
  "deriveAlignmentScore_fp rd d =
     (let x = sample_x d; y = sample_y d; z = sample_z d;
          magnitude = Math_max (rd 0.001)
            (fsqrt rd (fadd rd (fadd rd (fmul rd x x) (fmul rd y y)) (fmul rd z z)));
          normX = fdiv rd x magnitude;
          normY = fdiv rd y magnitude;
          normZ = fdiv rd z magnitude;
          gravityDrift = Math_min (rd 1) (Math_abs (fsub rd magnitude (rd 1)));
          tiltPenalty = Math_min (rd 1) (Math_abs (fsub rd (Math_abs normZ) (rd 1)));
          lateralMotion = Math_min (rd 1)
            (fsqrt rd (fadd rd (fmul rd normX normX) (fmul rd normY normY)));
          score = fsub rd (rd 1)
            (fadd rd (fadd rd (fmul rd (rd 0.5) tiltPenalty) (fmul rd (rd 0.3) gravityDrift))
               (fmul rd (rd 0.2) lateralMotion))
      in Math_max (rd 0) (Math_min (rd 1) score))"

text \<open>
  \<^verbatim>\<open>computeJitterPenalty\<close>, lines 591 to 600, with every result rounded; the constant
  \<^verbatim>\<open>MAX_ACCEL_DELTA\<close> holds the double nearest to 0.35.
\<close>

definition computeJitterPenalty_fp ::
  "(real \<Rightarrow> jsnum) \<Rightarrow> sample option \<Rightarrow> sample \<Rightarrow> jsnum" where
  "computeJitterPenalty_fp rd previousSample currentSample =
     (case previousSample of
        None \<Rightarrow> rd 0
      | Some p \<Rightarrow>
          (let dx = fsub rd (or0 (sample_x currentSample)) (or0 (sample_x p));
               dy = fsub rd (or0 (sample_y currentSample)) (or0 (sample_y p));
               dz = fsub rd (or0 (sample_z currentSample)) (or0 (sample_z p));
               delta = fsqrt rd (fadd rd (fadd rd (fmul rd dx dx) (fmul rd dy dy)) (fmul rd dz dz))
           in Math_min (rd 1) (fdiv rd delta (rounded rd MAX_ACCEL_DELTA))))"

text \<open>The two values of the accelerometer listener, lines 839 to 845, with every result rounded.\<close>

definition composite_fp :: "(real \<Rightarrow> jsnum) \<Rightarrow> sample option \<Rightarrow> sample \<Rightarrow> jsnum" where
  "composite_fp rd lastSample d =
     (let baseScore = deriveAlignmentScore_fp rd d;
          jitterPenalty = fmul rd (computeJitterPenalty_fp rd lastSample d) (rd 0.45)
      in Math_max (rd 0) (Math_min (rd 1) (fsub rd baseScore jitterPenalty)))"

definition smooth_fp :: "(real \<Rightarrow> jsnum) \<Rightarrow> jsnum \<Rightarrow> jsnum \<Rightarrow> jsnum" where
  "smooth_fp rd c prev =
     (if Number_isFinite prev then fadd rd (fmul rd prev (rd 0.55)) (fmul rd c (rd 0.45)) else c)"

section \<open>The state of the data-input screen\<close>

text \<open>
  The texts that \<^verbatim>\<open>setAlignmentStatus\<close> receives: the empty string, then
  \<^verbatim>\<open>Camera closed\<close>, \<^verbatim>\<open>Focusing camera...\<close>, \<^verbatim>\<open>Auto capture disabled\<close>,
  \<^verbatim>\<open>Capturing...\<close>, \<^verbatim>\<open>Position the form - looking for corner markers...\<close>,
  \<^verbatim>\<open>Found N/4 corners - adjust position\<close>,
  \<^verbatim>\<open>All corners found - improve alignment (P%)\<close>, \<^verbatim>\<open>Corners detected - hold steady\<close>,
  \<^verbatim>\<open>All corners detected - auto capture arming\<close> and
  \<^verbatim>\<open>All corners detected - capturing soon\<close>.
\<close>

datatype status =
    StatusEmpty
  | CameraClosed
  | FocusingCamera
  | AutoCaptureDisabled
  | Capturing
  | LookingForMarkers
  | FoundCorners int
  | ImproveAlignment int
  | HoldSteady
  | AutoCaptureArming
  | CapturingSoon

text \<open>
  What the runtime holds for the component: the callbacks registered with
  \<^verbatim>\<open>setInterval\<close> and \<^verbatim>\<open>Accelerometer.addListener\<close>.  A countdown callback
  closes over \<^verbatim>\<open>started\<close>, the value of \<^verbatim>\<open>Date.now()\<close> when it was registered.
\<close>

datatype closure = Countdown int | FiducialPoll | MotionListener

text \<open>
  The response of the marker-detection service, \<^verbatim>\<open>{detected, corners, quality, ready}\<close>.
  A field can be missing from the JSON body; \<^verbatim>\<open>corners\<close> is not read by the screen.
\<close>

record fiducial_result =
  detected :: "int option"
  corners :: "string list"
  quality :: "real option"
  ready :: "bool option"

text \<open>
  The React state and the refs of \<^verbatim>\<open>DataInputScreen\<close> that the capture logic reads or
  writes (lines 688 to 721), under their names in the source.  \<open>cameraRef\<close> says whether
  \<^verbatim>\<open>cameraRef.current\<close> is set; a timer ref holds the handle of its callback.

  The last fields are not variables of the source.  \<open>callbacks\<close> lists the live
  registrations (handle, closure, period in ms), \<open>nextId\<close> is the next fresh handle,
  \<open>monitoringCleanup\<close> says whether the last run of the monitoring effect returned a
  cleanup function, \<open>checksInFlight\<close>, \<open>capturesInFlight\<close> and \<open>processingInFlight\<close>
  count the calls of \<^verbatim>\<open>checkFiducials\<close> and \<^verbatim>\<open>handleTakePhoto\<close> that are suspended at
  an \<^verbatim>\<open>await\<close>, and \<open>autoCaptureFired\<close> counts the calls \<^verbatim>\<open>handleTakePhoto(true)\<close>
  made by the countdown.
\<close>

record screen =
  cameraError :: string
  cameraVisible :: bool
  cameraReady :: bool
  autoCaptureEnabled :: bool
  alignmentScore :: jsnum
  alignmentStatus :: status
  autoCaptureCountdown :: int
  fiducialCount :: int
  fiducialQuality :: real
  fiducialReady :: bool
  cameraRef :: bool
  accelerometerSubscriptionRef :: "nat option"
  autoCaptureTimerRef :: "nat option"
  autoCaptureLockRef :: bool
  lastAccelSampleRef :: "sample option"
  fiducialCheckIntervalRef :: "nat option"
  fiducialCheckInProgressRef :: bool
  callbacks :: "(nat \<times> closure \<times> int) list"
  nextId :: nat
  monitoringCleanup :: bool
  checksInFlight :: nat
  capturesInFlight :: nat
  processingInFlight :: nat
  autoCaptureFired :: nat

text \<open>The screen as \<^verbatim>\<open>useState\<close> and \<^verbatim>\<open>useRef\<close> initialise it.\<close>

definition initial :: screen where
  "initial = \<lparr>cameraError = [], cameraVisible = False, cameraReady = False,
     autoCaptureEnabled = True, alignmentScore = Fin 0, alignmentStatus = StatusEmpty,
     autoCaptureCountdown = 0, fiducialCount = 0, fiducialQuality = 0, fiducialReady = False,
     cameraRef = False, accelerometerSubscriptionRef = None, autoCaptureTimerRef = None,
     autoCaptureLockRef = False, lastAccelSampleRef = None, fiducialCheckIntervalRef = None,
     fiducialCheckInProgressRef = False, callbacks = [], nextId = 1, monitoringCleanup = False,
     checksInFlight = 0, capturesInFlight = 0, processingInFlight = 0, autoCaptureFired = 0\<rparr>"

subsection \<open>Timers and listeners\<close>

text \<open>
  \<^verbatim>\<open>setInterval\<close> (and \<^verbatim>\<open>addListener\<close>) registers a callback and returns its handle;
  \<^verbatim>\<open>clearInterval\<close> (and \<^verbatim>\<open>remove\<close>) drops it, after which it never runs again.
  Handles start at 1, so a stored handle is truthy.
\<close>

definition setInterval :: "closure \<Rightarrow> int \<Rightarrow> screen \<Rightarrow> nat \<times> screen" where
  "setInterval c ms s =
     (nextId s, s\<lparr>callbacks := callbacks s @ [(nextId s, c, ms)], nextId := Suc (nextId s)\<rparr>)"

definition clearInterval :: "nat \<Rightarrow> screen \<Rightarrow> screen" where
  "clearInterval i s = s\<lparr>callbacks := filter (\<lambda>p. fst p \<noteq> i) (callbacks s)\<rparr>"

text \<open>\<^verbatim>\<open>clearAutoCaptureTimer\<close>, lines 723 to 741.\<close>

definition clearAutoCaptureTimer :: "bool \<Rightarrow> screen \<Rightarrow> screen" where
  "clearAutoCaptureTimer preserveLock s =
     (let s1 = (case autoCaptureTimerRef s of
                  Some i \<Rightarrow> (clearInterval i s)\<lparr>autoCaptureTimerRef := None\<rparr>
                | None \<Rightarrow> s);
          s2 = (case fiducialCheckIntervalRef s1 of
                  Some i \<Rightarrow> (clearInterval i s1)\<lparr>fiducialCheckIntervalRef := None\<rparr>
                | None \<Rightarrow> s1);
          s3 = s2\<lparr>fiducialCheckInProgressRef := False\<rparr>;
          s4 = (if \<not> preserveLock then s3\<lparr>autoCaptureLockRef := False\<rparr> else s3)
      in s4\<lparr>autoCaptureCountdown := 0\<rparr>)"

text \<open>\<^verbatim>\<open>stopAlignmentMonitoring\<close>, lines 743 to 756.\<close>

definition stopAlignmentMonitoring :: "screen \<Rightarrow> screen" where
  "stopAlignmentMonitoring s =
     (let s1 = (case accelerometerSubscriptionRef s of
                  Some i \<Rightarrow> clearInterval i s
                | None \<Rightarrow> s);
          s2 = s1\<lparr>accelerometerSubscriptionRef := None, lastAccelSampleRef := None\<rparr>;
          s3 = (case fiducialCheckIntervalRef s2 of
                  Some i \<Rightarrow> (clearInterval i s2)\<lparr>fiducialCheckIntervalRef := None\<rparr>
                | None \<Rightarrow> s2)
      in s3\<lparr>fiducialCheckInProgressRef := False, fiducialCount := 0, fiducialQuality := 0,
            fiducialReady := False\<rparr>)"

subsection \<open>The fiducial check\<close>

text \<open>
  \<^verbatim>\<open>validateFiducials\<close> of \<^verbatim>\<open>utils/api.js\<close> (lines 50 to 83 of
  \<^verbatim>\<open>src/unnamed/part_002\<close>).  Its argument is the uri of the asset, if the asset has a
  non-empty one.  What the network does is an input: \<^verbatim>\<open>fetch\<close> throws, or it returns a
  response with its \<^verbatim>\<open>ok\<close> flag and the result \<^verbatim>\<open>response.json()\<close> gives, if the body
  parses.  An exception the function throws is the \<open>Inl\<close> of the result.
\<close>

datatype api_error = NoAsset | InvalidBody

datatype fetch_outcome = FetchThrows | Response bool "fiducial_result option"

definition sentinel :: fiducial_result where
  "sentinel = \<lparr>detected = Some 0, corners = [], quality = Some 0, ready = Some False\<rparr>"

definition validateFiducials :: "string option \<Rightarrow> fetch_outcome \<Rightarrow> api_error + fiducial_result" where
  "validateFiducials uri net =
     (if uri = None \<or> uri = Some [] then Inl NoAsset
      else (case net of
              FetchThrows \<Rightarrow> Inr sentinel
            | Response ok body \<Rightarrow>
                if \<not> ok then Inr sentinel
                else (case body of None \<Rightarrow> Inl InvalidBody | Some r \<Rightarrow> Inr r)))"

text \<open>
  \<^verbatim>\<open>checkFiducials\<close>, lines 798 to 824, in the two parts that run without interruption:
  from the call to the first \<^verbatim>\<open>await\<close>, and from the settled promises to the end of
  \<^verbatim>\<open>finally\<close>.  Other callbacks can run between the two.  \<^verbatim>\<open>takePictureAsync\<close> throws,
  or it returns a snapshot, with its uri if it has one.  The function and the polling
  callback are created again whenever \<^verbatim>\<open>cameraReady\<close> changes, so they read its current
  value.
\<close>

datatype snapshot_outcome = SnapshotThrows | Snapshot "string option"

definition checkFiducials_begin :: "screen \<Rightarrow> screen" where
  "checkFiducials_begin s =
     (if \<not> cameraRef s \<or> \<not> cameraReady s \<or> fiducialCheckInProgressRef s \<or> autoCaptureLockRef s
      then s
      else s\<lparr>fiducialCheckInProgressRef := True, checksInFlight := Suc (checksInFlight s)\<rparr>)"

definition applyFiducialResult :: "fiducial_result \<Rightarrow> screen \<Rightarrow> screen" where
  "applyFiducialResult r s =
     s\<lparr>fiducialCount := (case detected r of Some n \<Rightarrow> n | None \<Rightarrow> 0),
       fiducialQuality := (case quality r of Some q \<Rightarrow> q | None \<Rightarrow> 0),
       fiducialReady := (case ready r of Some b \<Rightarrow> b | None \<Rightarrow> False)\<rparr>"

definition checkFiducials_settle :: "snapshot_outcome \<Rightarrow> fetch_outcome \<Rightarrow> screen \<Rightarrow> screen" where
  "checkFiducials_settle snap net s =
     (let s1 = (case snap of
                  SnapshotThrows \<Rightarrow> s
                | Snapshot uri \<Rightarrow>
                    if uri = None \<or> uri = Some [] then s
                    else (case validateFiducials uri net of
                            Inl e \<Rightarrow> s
                          | Inr r \<Rightarrow> applyFiducialResult r s))
      in s1\<lparr>fiducialCheckInProgressRef := False, checksInFlight := checksInFlight s1 - 1\<rparr>)"

text \<open>The callback of the polling interval, lines 848 to 852.\<close>

definition fiducialPollTick :: "screen \<Rightarrow> screen" where
  "fiducialPollTick s =
     (if cameraReady s \<and> \<not> autoCaptureLockRef s then checkFiducials_begin s else s)"

text \<open>The accelerometer listener, lines 839 to 845.\<close>

definition accelerometerListener :: "sample \<Rightarrow> screen \<Rightarrow> screen" where
  "accelerometerListener d s =
     s\<lparr>lastAccelSampleRef := Some d,
       alignmentScore := smooth (composite (lastAccelSampleRef s) d) (alignmentScore s)\<rparr>"

subsection \<open>Opening, closing and capturing\<close>

text \<open>
  \<^verbatim>\<open>handleOpenCamera\<close>, lines 913 to 926, with the answer of the permission request as
  an input.  The OCR and preprocessing fields it also resets are not part of \<open>screen\<close>.
\<close>

definition handleOpenCamera :: "bool \<Rightarrow> screen \<Rightarrow> screen" where
  "handleOpenCamera granted s =
     (let s1 = clearAutoCaptureTimer False (s\<lparr>cameraError := []\<rparr>);
          s2 = s1\<lparr>alignmentScore := Fin 0, alignmentStatus := StatusEmpty\<rparr>
      in if \<not> granted
         then s2\<lparr>cameraError := ''Camera access is required to capture parameter cards.''\<rparr>
         else s2\<lparr>cameraReady := False, cameraVisible := True\<rparr>)"

text \<open>\<^verbatim>\<open>handleCloseCamera\<close>, lines 928 to 937.\<close>

definition handleCloseCamera :: "screen \<Rightarrow> screen" where
  "handleCloseCamera s =
     (let s1 = s\<lparr>cameraVisible := False, cameraReady := False\<rparr>;
          s2 = stopAlignmentMonitoring s1;
          s3 = clearAutoCaptureTimer False s2
      in s3\<lparr>alignmentScore := Fin 0, alignmentStatus := StatusEmpty,
            autoCaptureCountdown := 0, autoCaptureLockRef := False\<rparr>)"

text \<open>
  \<^verbatim>\<open>handleTakePhoto\<close>, lines 939 to 969: the part up to \<^verbatim>\<open>await takePictureAsync\<close>,
  then what runs when that promise resolves (up to \<^verbatim>\<open>await handlePhotoResult\<close>) or
  rejects (the \<^verbatim>\<open>catch\<close> and \<^verbatim>\<open>finally\<close> blocks), then the \<^verbatim>\<open>finally\<close> block after
  \<^verbatim>\<open>handlePhotoResult\<close>.  The callback is created again whenever \<^verbatim>\<open>cameraReady\<close>
  changes, so it reads the current value.
\<close>

definition handleTakePhoto :: "bool \<Rightarrow> screen \<Rightarrow> screen" where
  "handleTakePhoto autoTriggered s =
     (if \<not> cameraRef s then s
      else if \<not> cameraReady s
      then s\<lparr>cameraError := ''Camera is still focusing. Hold steady.''\<rparr>
      else (let s1 = (if \<not> autoTriggered then clearAutoCaptureTimer False s else s)
            in s1\<lparr>capturesInFlight := Suc (capturesInFlight s1)\<rparr>))"

definition handleTakePhoto_finally :: "screen \<Rightarrow> screen" where
  "handleTakePhoto_finally s = clearAutoCaptureTimer False (s\<lparr>autoCaptureLockRef := False\<rparr>)"

definition handleTakePhoto_resolved :: "screen \<Rightarrow> screen" where
  "handleTakePhoto_resolved s =
     (let s1 = handleCloseCamera s
      in s1\<lparr>capturesInFlight := capturesInFlight s1 - 1,
            processingInFlight := Suc (processingInFlight s1)\<rparr>)"

definition handleTakePhoto_rejected :: "string \<Rightarrow> screen \<Rightarrow> screen" where
  "handleTakePhoto_rejected message s =
     (let s1 = handleCloseCamera (s\<lparr>cameraError := ''Unable to capture photo: '' @ message\<rparr>);
          s2 = handleTakePhoto_finally s1
      in s2\<lparr>capturesInFlight := capturesInFlight s2 - 1\<rparr>)"

definition handleTakePhoto_processed :: "screen \<Rightarrow> screen" where
  "handleTakePhoto_processed s =
     (let s1 = handleTakePhoto_finally s
      in s1\<lparr>processingInFlight := processingInFlight s1 - 1\<rparr>)"

text \<open>The handler of the auto-capture toggle, lines 1153 to 1161.\<close>

definition toggleAutoCapture :: "screen \<Rightarrow> screen" where
  "toggleAutoCapture s =
     (let next = \<not> autoCaptureEnabled s;
          s1 = (if \<not> next then clearAutoCaptureTimer False s else s)
      in s1\<lparr>autoCaptureEnabled := next\<rparr>)"

subsection \<open>The monitoring effect\<close>

text \<open>
  The effect of lines 826 to 864.  Its cleanup function and its branch for a closed
  camera do the same resets.  When React runs the effect again it first runs the cleanup
  function that the last run returned, if it returned one.
\<close>

definition monitoringReset :: "screen \<Rightarrow> screen" where
  "monitoringReset s =
     (let s1 = stopAlignmentMonitoring s;
          s2 = clearAutoCaptureTimer False s1
      in s2\<lparr>alignmentScore := Fin 0, alignmentStatus := StatusEmpty, fiducialCount := 0,
            fiducialQuality := 0, fiducialReady := False, lastAccelSampleRef := None\<rparr>)"

definition monitoringBody :: "screen \<Rightarrow> screen" where
  "monitoringBody s =
     (if \<not> cameraVisible s then (monitoringReset s)\<lparr>monitoringCleanup := False\<rparr>
      else (let (i, s1) = setInterval MotionListener 150 s;
                s2 = s1\<lparr>accelerometerSubscriptionRef := Some i\<rparr>;
                (j, s3) = setInterval FiducialPoll FIDUCIAL_CHECK_INTERVAL_MS s2
            in s3\<lparr>fiducialCheckIntervalRef := Some j, monitoringCleanup := True\<rparr>))"

definition monitoringEffect :: "screen \<Rightarrow> screen" where
  "monitoringEffect s = monitoringBody (if monitoringCleanup s then monitoringReset s else s)"

subsection \<open>The auto-capture effect and its countdown\<close>

text \<open>
  The callback of the countdown interval, lines 1020 to 1030; \<open>now\<close> is \<^verbatim>\<open>Date.now()\<close>
  when it runs.
\<close>

definition countdownTick :: "int \<Rightarrow> int \<Rightarrow> screen \<Rightarrow> screen" where
  "countdownTick started now s =
     (let elapsed = now - started;
          remaining = max 0 (AUTO_CAPTURE_START_MS - elapsed);
          s1 = s\<lparr>autoCaptureCountdown := remaining\<rparr>
      in if remaining \<le> 0
         then (let s2 = clearAutoCaptureTimer True s1;
                   s3 = s2\<lparr>autoCaptureLockRef := True\<rparr>
               in handleTakePhoto True (s3\<lparr>autoCaptureFired := Suc (autoCaptureFired s3)\<rparr>))
         else s1)"

text \<open>The effect of lines 971 to 1055; \<open>now\<close> is \<^verbatim>\<open>Date.now()\<close> when it runs.\<close>

definition fiducialsOk :: "screen \<Rightarrow> bool" where
  "fiducialsOk s = (fiducialCount s \<ge> MIN_FIDUCIALS_FOR_CAPTURE \<and> fiducialReady s)"

definition stabilityOk :: "screen \<Rightarrow> bool" where
  "stabilityOk s = js_ge (alignmentScore s) AUTO_CAPTURE_START_THRESHOLD"

definition bothConditionsMet :: "screen \<Rightarrow> bool" where
  "bothConditionsMet s = (fiducialsOk s \<and> stabilityOk s)"

definition statusMessage :: "screen \<Rightarrow> status" where
  "statusMessage s =
     (if fiducialCount s = 0 then LookingForMarkers
      else if fiducialCount s < MIN_FIDUCIALS_FOR_CAPTURE then FoundCorners (fiducialCount s)
      else if \<not> fiducialReady s then ImproveAlignment (round (fiducialQuality s * 100))
      else if \<not> stabilityOk s then HoldSteady
      else AutoCaptureArming)"

definition autoCaptureEffect :: "int \<Rightarrow> screen \<Rightarrow> screen" where
  "autoCaptureEffect now s =
     (if \<not> cameraVisible s then clearAutoCaptureTimer False (s\<lparr>alignmentStatus := CameraClosed\<rparr>)
      else if \<not> cameraReady s
      then clearAutoCaptureTimer False (s\<lparr>alignmentStatus := FocusingCamera\<rparr>)
      else if \<not> autoCaptureEnabled s
      then clearAutoCaptureTimer False (s\<lparr>alignmentStatus := AutoCaptureDisabled\<rparr>)
      else if autoCaptureLockRef s then s\<lparr>alignmentStatus := Capturing\<rparr>
      else if bothConditionsMet s \<and> autoCaptureTimerRef s = None
      then (let s1 = s\<lparr>alignmentStatus := CapturingSoon,
                        autoCaptureCountdown := AUTO_CAPTURE_START_MS\<rparr>;
                (i, s2) = setInterval (Countdown now) 120 s1
            in s2\<lparr>autoCaptureTimerRef := Some i\<rparr>)
      else if \<not> bothConditionsMet s
      then (let s1 = (if autoCaptureTimerRef s \<noteq> None then clearAutoCaptureTimer False s else s)
            in s1\<lparr>alignmentStatus := statusMessage s\<rparr>)
      else s\<lparr>alignmentStatus := statusMessage s\<rparr>)"

section \<open>The screen as an event system\<close>

text \<open>
  JavaScript runs one callback at a time.  An event is one such run: a handler of the
  user interface, an effect that React runs after a render, a timer or listener callback
  (with its handle), or the continuation of a suspended \<^verbatim>\<open>async\<close> function.  A callback
  whose handle is no longer registered does not run, and a continuation runs only for a
  call that is suspended.  The camera view calls \<^verbatim>\<open>onCameraReady\<close> only while it is
  mounted.  The capture button passes its press event to \<^verbatim>\<open>handleTakePhoto\<close>, a truthy
  argument.  After each event React commits the render: the camera view
  is mounted, and \<^verbatim>\<open>cameraRef.current\<close> set, exactly while the modal is visible.
\<close>

datatype event =
    OpenCamera bool
  | CloseCamera
  | CameraReady
  | ToggleAutoCapture
  | PressCapture
  | MonitoringEffect
  | AutoCaptureEffect int
  | IntervalFires nat int
  | AccelerometerUpdate nat sample
  | CheckSettles snapshot_outcome fetch_outcome
  | PhotoResolved
  | PhotoRejected string
  | PhotoProcessed

definition handle :: "event \<Rightarrow> screen \<Rightarrow> screen" where
  "handle e s =
     (case e of
        OpenCamera granted \<Rightarrow> handleOpenCamera granted s
      | CloseCamera \<Rightarrow> handleCloseCamera s
      | CameraReady \<Rightarrow> (if cameraRef s then s\<lparr>cameraReady := True\<rparr> else s)
      | ToggleAutoCapture \<Rightarrow> toggleAutoCapture s
      | PressCapture \<Rightarrow> handleTakePhoto True s
      | MonitoringEffect \<Rightarrow> monitoringEffect s
      | AutoCaptureEffect now \<Rightarrow> autoCaptureEffect now s
      | IntervalFires i now \<Rightarrow>
          (case map_of (callbacks s) i of
             Some (Countdown started, ms) \<Rightarrow> countdownTick started now s
           | Some (FiducialPoll, ms) \<Rightarrow> fiducialPollTick s
           | _ \<Rightarrow> s)
      | AccelerometerUpdate i d \<Rightarrow>
          (case map_of (callbacks s) i of
             Some (MotionListener, ms) \<Rightarrow> accelerometerListener d s
           | _ \<Rightarrow> s)
      | CheckSettles snap net \<Rightarrow>
          (if checksInFlight s = 0 then s else checkFiducials_settle snap net s)
      | PhotoResolved \<Rightarrow> (if capturesInFlight s = 0 then s else handleTakePhoto_resolved s)
      | PhotoRejected message \<Rightarrow>
          (if capturesInFlight s = 0 then s else handleTakePhoto_rejected message s)
      | PhotoProcessed \<Rightarrow>
          (if processingInFlight s = 0 then s else handleTakePhoto_processed s))"

definition step :: "event \<Rightarrow> screen \<Rightarrow> screen" where
  "step e s = (let s1 = handle e s in s1\<lparr>cameraRef := cameraVisible s1\<rparr>)"

fun run :: "event list \<Rightarrow> screen \<Rightarrow> screen" where
  "run [] s = s"
| "run (e # es) s = run es (step e s)"

subsection \<open>The event system in double precision\<close>

text \<open>
  The accelerometer listener is the one callback that computes with numbers; the other
  events compare the score or store 0.  \<open>handle_fp\<close> runs the listener with the rounding
  \<open>rd\<close> and every other event as \<open>handle\<close> does.
\<close>

definition accelerometerListener_fp :: "(real \<Rightarrow> jsnum) \<Rightarrow> sample \<Rightarrow> screen \<Rightarrow> screen" where
  "accelerometerListener_fp rd d s =
     s\<lparr>lastAccelSampleRef := Some d,
       alignmentScore := smooth_fp rd (composite_fp rd (lastAccelSampleRef s) d) (alignmentScore s)\<rparr>"

definition handle_fp :: "(real \<Rightarrow> jsnum) \<Rightarrow> event \<Rightarrow> screen \<Rightarrow> screen" where
  "handle_fp rd e s =
     (case e of
        AccelerometerUpdate i d \<Rightarrow>
          (case map_of (callbacks s) i of
             Some (MotionListener, ms) \<Rightarrow> accelerometerListener_fp rd d s
           | _ \<Rightarrow> s)
      | _ \<Rightarrow> handle e s)"

definition step_fp :: "(real \<Rightarrow> jsnum) \<Rightarrow> event \<Rightarrow> screen \<Rightarrow> screen" where
  "step_fp rd e s = (let s1 = handle_fp rd e s in s1\<lparr>cameraRef := cameraVisible s1\<rparr>)"

fun run_fp :: "(real \<Rightarrow> jsnum) \<Rightarrow> event list \<Rightarrow> screen \<Rightarrow> screen" where
  "run_fp rd [] s = s"
| "run_fp rd (e # es) s = run_fp rd es (step_fp rd e s)"

section \<open>Notions used by the statements\<close>

subsection \<open>Scores and samples\<close>

text \<open>A number in the interval from 0 to 1, and a sample without NaN or infinite component.\<close>

fun in_unit :: "jsnum \<Rightarrow> bool" where
  "in_unit (Fin r) = (0 \<le> r \<and> r \<le> 1)"
| "in_unit v = False"

definition finite_sample :: "sample \<Rightarrow> bool" where
  "finite_sample d =
     (Number_isFinite (sample_x d) \<and> Number_isFinite (sample_y d) \<and> Number_isFinite (sample_z d))"


fun nonneg_or_inf :: "jsnum \<Rightarrow> bool" where
  "nonneg_or_inf (Fin r) = (0 \<le> r)"
| "nonneg_or_inf PInf = True"
| "nonneg_or_inf v = False"

fun pos_or_inf :: "jsnum \<Rightarrow> bool" where
  "pos_or_inf (Fin r) = (0 < r)"
| "pos_or_inf PInf = True"
| "pos_or_inf v = False"

text \<open>
  Samples for the instances: a vector of length \<open>10 ^ 200\<close>, whose square is beyond the
  doubles, and an event sequence that delivers the zero vector and then that one to the
  listener, which the monitoring effect registers under handle 1.
\<close>

definition huge_vector :: sample where
  "huge_vector = \<lparr>sample_x = Fin 0, sample_y = Fin 0, sample_z = Fin (10 ^ 200)\<rparr>"

definition session_huge :: "event list" where
  "session_huge =
     [OpenCamera True, MonitoringEffect,
      AccelerometerUpdate 1 \<lparr>sample_x = Fin 0, sample_y = Fin 0, sample_z = Fin 0\<rparr>,
      AccelerometerUpdate 1 huge_vector]"

text \<open>An event whose motion sample, if it carries one, is finite.\<close>

definition finite_event :: "event \<Rightarrow> bool" where
  "finite_event e = (case e of AccelerometerUpdate i d \<Rightarrow> finite_sample d | _ \<Rightarrow> True)"

text \<open>
  The scoring algorithm in the words of the specification (section 4.1, steps 1 to 8),
  on real numbers: the raw score of a sample, the jitter penalty against the previous
  sample, and the composite.  The code is compared with these below.
\<close>

definition clamp01 :: "real \<Rightarrow> real" where
  "clamp01 r = max 0 (min 1 r)"

definition spec_rawScore :: "real \<Rightarrow> real \<Rightarrow> real \<Rightarrow> real" where
  "spec_rawScore x y z =
     (let m = max 0.001 (sqrt (x\<^sup>2 + y\<^sup>2 + z\<^sup>2));
          normX = x / m; normY = y / m; normZ = z / m;
          gravityDrift = min 1 \<bar>m - 1\<bar>;
          tiltPenalty = min 1 \<bar>\<bar>normZ\<bar> - 1\<bar>;
          lateralMotion = min 1 (sqrt (normX\<^sup>2 + normY\<^sup>2))
      in clamp01 (1 - (0.5 * tiltPenalty + 0.3 * gravityDrift + 0.2 * lateralMotion)))"



subsection \<open>Registered callbacks\<close>

text \<open>
  \<open>keep r\<close> selects the registrations that clearing the handle stored in \<open>r\<close> leaves.
  A registration is owned when the ref of its kind holds its handle; in an owned screen
  every live callback can still be cleared through its ref.
\<close>

definition keep :: "nat option \<Rightarrow> nat \<times> closure \<times> int \<Rightarrow> bool" where
  "keep r p = (Some (fst p) \<noteq> r)"

definition owner :: "nat option \<Rightarrow> nat option \<Rightarrow> nat option \<Rightarrow> closure \<Rightarrow> nat option" where
  "owner t f a c = (case c of Countdown started \<Rightarrow> t | FiducialPoll \<Rightarrow> f | MotionListener \<Rightarrow> a)"

definition owned_at ::
  "(nat \<times> closure \<times> int) list \<Rightarrow> nat option \<Rightarrow> nat option \<Rightarrow> nat option \<Rightarrow> bool" where
  "owned_at cb t f a = list_all (\<lambda>(i, c, ms). owner t f a c = Some i) cb"

definition owned :: "screen \<Rightarrow> bool" where
  "owned s = owned_at (callbacks s) (autoCaptureTimerRef s) (fiducialCheckIntervalRef s)
               (accelerometerSubscriptionRef s)"

text \<open>The camera is open and ready and auto capture is switched on.\<close>

definition usable :: "screen \<Rightarrow> bool" where
  "usable s = (cameraVisible s \<and> cameraReady s \<and> autoCaptureEnabled s)"

text \<open>
  The invariant of the event system: callbacks are owned; a countdown runs only on a
  usable, unlocked screen; a monitoring effect that left no cleanup function left no
  listener or polling timer; while the camera is closed no check is marked in progress
  and the camera is not ready; and the camera view is mounted exactly while the modal
  is visible.
\<close>

definition inv0 :: "screen \<Rightarrow> bool" where
  "inv0 s = (owned s \<and>
     (autoCaptureTimerRef s \<noteq> None \<longrightarrow>
        cameraVisible s \<and> cameraReady s \<and> autoCaptureEnabled s \<and> \<not> autoCaptureLockRef s) \<and>
     (\<not> monitoringCleanup s \<longrightarrow>
        accelerometerSubscriptionRef s = None \<and> fiducialCheckIntervalRef s = None) \<and>
     (\<not> cameraVisible s \<longrightarrow> \<not> fiducialCheckInProgressRef s \<and> \<not> cameraReady s))"

definition screen_inv :: "screen \<Rightarrow> bool" where
  "screen_inv s = (inv0 s \<and> cameraRef s = cameraVisible s)"

subsection \<open>Arming and firing\<close>

text \<open>
  The condition for entering the arming state in the words of the specification
  (section 4.1), with its constants 4 and 0.55.
\<close>

definition spec_armingCondition :: "screen \<Rightarrow> bool" where
  "spec_armingCondition s =
     (cameraReady s \<and> autoCaptureEnabled s \<and> \<not> autoCaptureLockRef s \<and> fiducialCount s \<ge> 4 \<and>
      fiducialReady s \<and> js_ge (alignmentScore s) (Fin 0.55))"

text \<open>The countdown callbacks that are registered.\<close>

fun isCountdown :: "nat \<times> closure \<times> int \<Rightarrow> bool" where
  "isCountdown (i, Countdown started, ms) = True"
| "isCountdown p = False"

definition countdowns :: "screen \<Rightarrow> (nat \<times> closure \<times> int) list" where
  "countdowns s = filter isCountdown (callbacks s)"

text \<open>
  The events that carry a signal to the engine during a session: a run of the
  auto-capture effect, a timer callback, a motion sample, the end of a fiducial check.
  The others are the user's actions, the camera's, and the monitoring effect, which
  runs again only when the camera opens, closes or becomes ready.
\<close>

fun signal :: "event \<Rightarrow> bool" where
  "signal (AutoCaptureEffect now) = True"
| "signal (IntervalFires i now) = True"
| "signal (AccelerometerUpdate i d) = True"
| "signal (CheckSettles snap net) = True"
| "signal e = False"

text \<open>The screen of a capture that has fired: locked, usable, no countdown handle.\<close>

definition firing :: "screen \<Rightarrow> bool" where
  "firing s = (autoCaptureLockRef s \<and> usable s \<and> autoCaptureTimerRef s = None)"

text \<open>
  \<open>shrinks s t\<close>: from \<open>s\<close> to \<open>t\<close> callbacks were only removed.  \<open>fresh s\<close>: the handles
  of the registered callbacks are distinct and below the next handle.
\<close>

definition shrinks :: "screen \<Rightarrow> screen \<Rightarrow> bool" where
  "shrinks s t = ((\<exists>P. callbacks t = filter P (callbacks s)) \<and> nextId t = nextId s)"

definition fresh :: "screen \<Rightarrow> bool" where
  "fresh s = (distinct (map fst (callbacks s)) \<and> list_all (\<lambda>p. fst p < nextId s) (callbacks s))"

subsection \<open>Example sessions\<close>

text \<open>
  Event sequences for the instances below.  In \<open>session_ready\<close> the camera opens and
  becomes ready, with the effects React runs after each change; a fiducial check
  returns four corners, ready, and two level samples raise the score to 0.6975.  In
  \<open>session_arming\<close> the auto-capture effect then runs at time 900 and starts the
  countdown.  The monitoring effect registers the listener under handle 3 and the
  polling timer under handle 4; the countdown gets handle 5.
\<close>

definition example_result :: fiducial_result where
  "example_result = \<lparr>detected = Some 4, corners = [], quality = Some 0.9, ready = Some True\<rparr>"

definition lost_result :: fiducial_result where
  "lost_result = \<lparr>detected = Some 2, corners = [], quality = Some 0.4, ready = Some False\<rparr>"

definition level :: sample where
  "level = \<lparr>sample_x = Fin 0, sample_y = Fin 0, sample_z = Fin 1\<rparr>"

definition zero_vector :: sample where
  "zero_vector = \<lparr>sample_x = Fin 0, sample_y = Fin 0, sample_z = Fin 0\<rparr>"

definition session_ready :: "event list" where
  "session_ready =
     [OpenCamera True, MonitoringEffect, AutoCaptureEffect 0,
      CameraReady, MonitoringEffect, AutoCaptureEffect 100,
      IntervalFires 4 550,
      CheckSettles (Snapshot (Some ''snapshot.jpg'')) (Response True (Some example_result)),
      AutoCaptureEffect 700,
      AccelerometerUpdate 3 level, AutoCaptureEffect 750,
      AccelerometerUpdate 3 level]"

definition session_arming :: "event list" where
  "session_arming = session_ready @ [AutoCaptureEffect 900]"

text \<open>
  In \<open>reopened_session\<close> a fiducial check begins at time 550 and is still waiting for
  the service when the user closes the camera and opens it again; the polling timer of
  the new session has handle 8.  In \<open>arming_failure\<close> the polling timer fires during
  the countdown, the request of that check fails in the network, and the auto-capture
  effect runs on the changed fiducial state.
\<close>

definition reopened_session :: "event list" where
  "reopened_session =
     [OpenCamera True, MonitoringEffect, AutoCaptureEffect 0,
      CameraReady, MonitoringEffect, AutoCaptureEffect 100,
      IntervalFires 4 550,
      CloseCamera, MonitoringEffect, AutoCaptureEffect 800,
      OpenCamera True, MonitoringEffect, AutoCaptureEffect 2000,
      CameraReady, MonitoringEffect, AutoCaptureEffect 2100,
      IntervalFires 8 2550]"

definition arming_failure :: "event list" where
  "arming_failure =
     session_arming @
     [IntervalFires 4 1350,
      CheckSettles (Snapshot (Some ''snapshot.jpg'')) FetchThrows,
      AutoCaptureEffect 1400]"

subsection \<open>The end of a session\<close>

text \<open>
  \<open>readiness s\<close> collects the readiness state of the screen: the score, the fiducial
  count, quality and ready flag, the countdown, the lock, the listener and the two timers
  with the registered callbacks, the last sample and the in-progress mark.
  \<open>fiducials s\<close> is the fiducial part of it, and \<open>reported r\<close> what \<^verbatim>\<open>checkFiducials\<close>
  stores of a result \<open>r\<close>.  \<open>closed_clean s\<close>: the camera is closed, the readiness state
  is the initial one and no fiducial check is suspended.  \<open>isGrantedOpen e\<close>: the event
  opens the camera.
\<close>

definition readiness ::
  "screen \<Rightarrow> jsnum \<times> int \<times> real \<times> bool \<times> int \<times> bool \<times> nat option \<times> nat option \<times> nat option \<times>
     (nat \<times> closure \<times> int) list \<times> sample option \<times> bool" where
  "readiness s =
     (alignmentScore s, fiducialCount s, fiducialQuality s, fiducialReady s,
      autoCaptureCountdown s, autoCaptureLockRef s, accelerometerSubscriptionRef s,
      autoCaptureTimerRef s, fiducialCheckIntervalRef s, callbacks s, lastAccelSampleRef s,
      fiducialCheckInProgressRef s)"

definition fiducials :: "screen \<Rightarrow> int \<times> real \<times> bool" where
  "fiducials s = (fiducialCount s, fiducialQuality s, fiducialReady s)"

definition reported :: "fiducial_result \<Rightarrow> int \<times> real \<times> bool" where
  "reported r = fiducials (applyFiducialResult r initial)"

definition closed_clean :: "screen \<Rightarrow> bool" where
  "closed_clean s =
     (readiness s = readiness initial \<and> \<not> cameraVisible s \<and> \<not> cameraReady s \<and> \<not> cameraRef s \<and>
      checksInFlight s = 0)"

fun isGrantedOpen :: "event \<Rightarrow> bool" where
  "isGrantedOpen (OpenCamera granted) = granted"
| "isGrantedOpen e = False"

fun isAutoCaptureEffect :: "event \<Rightarrow> bool" where
  "isAutoCaptureEffect (AutoCaptureEffect now) = True"
| "isAutoCaptureEffect e = False"

text \<open>
  In \<open>stale_result_session\<close> a fiducial check begins at time 550; the user closes the
  camera while the service has not answered; the answer, four corners and ready, arrives
  while the camera is closed; then the user opens the camera again.  \<open>pending_check\<close> is
  the part of it up to the tick that begins the check.
\<close>

definition pending_check :: "event list" where
  "pending_check =
     [OpenCamera True, MonitoringEffect, AutoCaptureEffect 0,
      CameraReady, MonitoringEffect, AutoCaptureEffect 100,
      IntervalFires 4 550]"

definition stale_result_session :: "event list" where
  "stale_result_session =
     pending_check @
     [CloseCamera, MonitoringEffect, AutoCaptureEffect 800,
      CheckSettles (Snapshot (Some ''snapshot.jpg'')) (Response True (Some example_result)),
      AutoCaptureEffect 900,
      OpenCamera True, MonitoringEffect, AutoCaptureEffect 2000]"

subsection \<open>Fiducial checks in flight\<close>

text \<open>
  \<open>quiet s t\<close>: from \<open>s\<close> to \<open>t\<close> no check began or ended, and the in-progress mark and
  the polling handle were either both left alone or both cleared.  \<open>throttled s\<close>: at
  most one check is in flight, and if one is in flight without the mark, there is no
  polling timer that could begin another.
\<close>

definition quiet :: "screen \<Rightarrow> screen \<Rightarrow> bool" where
  "quiet s t = (checksInFlight t = checksInFlight s \<and>
     ((fiducialCheckInProgressRef t = fiducialCheckInProgressRef s \<and>
       fiducialCheckIntervalRef t = fiducialCheckIntervalRef s) \<or>
      (\<not> fiducialCheckInProgressRef t \<and> fiducialCheckIntervalRef t = None)))"

definition throttled :: "screen \<Rightarrow> bool" where
  "throttled s = (checksInFlight s \<le> 1 \<and>
     (checksInFlight s = 1 \<and> \<not> fiducialCheckInProgressRef s \<longrightarrow> fiducialCheckIntervalRef s = None))"

fun isMonitoringEffect :: "event \<Rightarrow> bool" where
  "isMonitoringEffect MonitoringEffect = True"
| "isMonitoringEffect e = False"

section \<open>The scoring functions on finite and on garbage samples\<close>

lemma in_unit_iff: "in_unit v = (\<exists>r. v = Fin r \<and> 0 \<le> r \<and> r \<le> 1)"
  by (cases v) auto

lemma isFinite_iff: "Number_isFinite v = (\<exists>r. v = Fin r)"
  by (cases v) auto

lemma clamp_in_unit: "Number_isFinite v \<Longrightarrow> in_unit (Math_max (Fin 0) (Math_min (Fin 1) v))"
  by (cases v) auto

lemma clamp01_bounds: "0 \<le> clamp01 r \<and> clamp01 r \<le> 1"
  by (simp add: clamp01_def)

lemma Math_sqrt_nonneg: "0 \<le> r \<Longrightarrow> Math_sqrt (Fin r) = Fin (sqrt r)"
  by simp

lemma divide_Fin_pos: "0 < m \<Longrightarrow> Fin a / Fin m = Fin (a / m)"
  by simp

lemma clamp_Fin: "Math_max (Fin 0) (Math_min (Fin 1) (Fin r)) = Fin (clamp01 r)"
  by (simp add: clamp01_def)

lemma derive_eq_spec:
  "deriveAlignmentScore \<lparr>sample_x = Fin x, sample_y = Fin y, sample_z = Fin z\<rparr>
     = Fin (spec_rawScore x y z)"
proof -
  define m where "m = max 0.001 (sqrt (x\<^sup>2 + y\<^sup>2 + z\<^sup>2))"
  have m_pos: "0 < m" by (simp add: m_def)
  have sq: "Fin x * Fin x + Fin y * Fin y + Fin z * Fin z = Fin (x\<^sup>2 + y\<^sup>2 + z\<^sup>2)"
    by (simp add: power2_eq_square)
  have mag: "Math_max (Fin 0.001) (Math_sqrt (Fin x * Fin x + Fin y * Fin y + Fin z * Fin z)) = Fin m"
  proof -
    have "0 \<le> x\<^sup>2 + y\<^sup>2 + z\<^sup>2" by (intro add_nonneg_nonneg zero_le_power2)
    then show ?thesis unfolding sq by (simp add: m_def not_less [symmetric])
  qed
  have lat: "Math_sqrt (Fin (x / m) * Fin (x / m) + Fin (y / m) * Fin (y / m))
               = Fin (sqrt ((x / m)\<^sup>2 + (y / m)\<^sup>2))"
  proof -
    have "Fin (x / m) * Fin (x / m) + Fin (y / m) * Fin (y / m) = Fin ((x / m)\<^sup>2 + (y / m)\<^sup>2)"
      by (simp add: power2_eq_square)
    then show ?thesis by (simp only: Math_sqrt_nonneg [OF sum_power2_ge_zero])
  qed
  show ?thesis
    unfolding deriveAlignmentScore_def Let_def sample.simps mag divide_Fin_pos [OF m_pos] lat
    unfolding spec_rawScore_def Let_def m_def [symmetric]
    by (simp add: clamp01_def)
qed

lemma derive_finite:
  assumes "finite_sample d"
  shows "in_unit (deriveAlignmentScore d)"
proof -
  obtain a b c where "sample_x d = Fin a" "sample_y d = Fin b" "sample_z d = Fin c"
    using assms by (auto simp: finite_sample_def isFinite_iff)
  then have "d = \<lparr>sample_x = Fin a, sample_y = Fin b, sample_z = Fin c\<rparr>" by simp
  then show ?thesis
    using clamp01_bounds by (simp add: derive_eq_spec spec_rawScore_def Let_def)
qed

lemma square_nonneg_or_inf: "v \<noteq> NaN \<Longrightarrow> nonneg_or_inf (v * v)"
  by (cases v) auto

lemma plus_nonneg_or_inf: "nonneg_or_inf u \<Longrightarrow> nonneg_or_inf v \<Longrightarrow> nonneg_or_inf (u + v)"
  by (cases u; cases v) auto

lemma sqrt_nonneg_or_inf: "nonneg_or_inf v \<Longrightarrow> nonneg_or_inf (Math_sqrt v)"
  by (cases v) auto

lemma min1_in_unit: "nonneg_or_inf v \<Longrightarrow> in_unit (Math_min (Fin 1) (v / MAX_ACCEL_DELTA))"
  by (cases v) (auto simp: MAX_ACCEL_DELTA_def)

lemma or0_diff_not_NaN: "or0 (Fin a) - or0 v \<noteq> NaN"
  by (cases v) auto

lemma jitter_finite:
  assumes "finite_sample d"
  shows "in_unit (computeJitterPenalty prev d)"
proof (cases prev)
  case None
  then show ?thesis by (simp add: computeJitterPenalty_def)
next
  case (Some p)
  obtain a b c where d: "sample_x d = Fin a" "sample_y d = Fin b" "sample_z d = Fin c"
    using assms by (auto simp: finite_sample_def isFinite_iff)
  show ?thesis
    unfolding computeJitterPenalty_def Some option.case Let_def d
    by (intro min1_in_unit sqrt_nonneg_or_inf plus_nonneg_or_inf square_nonneg_or_inf or0_diff_not_NaN)
qed

lemma composite_finite:
  assumes "finite_sample d"
  shows "in_unit (composite prev d)"
proof -
  obtain b where b: "deriveAlignmentScore d = Fin b"
    using derive_finite [OF assms] by (auto simp: in_unit_iff)
  obtain j where j: "computeJitterPenalty prev d = Fin j"
    using jitter_finite [OF assms] by (auto simp: in_unit_iff)
  show ?thesis
    unfolding composite_def Let_def b j by (rule clamp_in_unit) simp
qed

lemma smooth_in_unit: "in_unit c \<Longrightarrow> in_unit p \<Longrightarrow> in_unit (smooth c p)"
proof -
  assume "in_unit c" "in_unit p"
  then obtain x y where xy: "c = Fin x" "0 \<le> x" "x \<le> 1" "p = Fin y" "0 \<le> y" "y \<le> 1"
    by (auto simp: in_unit_iff)
  have "0 \<le> y * 0.55 + x * 0.45" using xy by simp
  moreover have "y * 0.55 + x * 0.45 \<le> 1" using xy by simp
  ultimately show ?thesis by (simp add: smooth_def xy)
qed

lemma derive_garbage:
  assumes "\<not> finite_sample d"
  shows "deriveAlignmentScore d = NaN"
  using assms unfolding finite_sample_def deriveAlignmentScore_def Let_def
  by (cases "sample_x d"; cases "sample_y d"; cases "sample_z d") simp_all

lemma composite_garbage: "\<not> finite_sample d \<Longrightarrow> composite prev d = NaN"
  by (simp add: composite_def derive_garbage)

lemma smooth_NaN: "smooth NaN p = NaN"
  by (cases p) (simp_all add: smooth_def)


section \<open>Rounding\<close>

lemma rne_cases: "rne q = \<lfloor>q\<rfloor> \<or> rne q = \<lfloor>q\<rfloor> + 1"
  by (simp add: rne_def Let_def)

lemma rne_of_int: "rne (of_int n) = n"
  by (simp add: rne_def)

lemma rne_0: "rne 0 = 0"
  using rne_of_int [of 0] by simp

lemma rne_mono:
  assumes "q \<le> q'"
  shows "rne q \<le> rne q'"
proof (cases "\<lfloor>q\<rfloor> = \<lfloor>q'\<rfloor>")
  case True
  then show ?thesis using assms by (auto simp: rne_def Let_def)
next
  case False
  then have "\<lfloor>q\<rfloor> + 1 \<le> \<lfloor>q'\<rfloor>" using floor_mono [OF assms] by simp
  moreover have "rne q \<le> \<lfloor>q\<rfloor> + 1" using rne_cases [of q] by auto
  moreover have "\<lfloor>q'\<rfloor> \<le> rne q'" using rne_cases [of q'] by auto
  ultimately show ?thesis by simp
qed

lemma rne_error: "\<bar>of_int (rne q) - q\<bar> \<le> 1 / 2"
proof -
  have "of_int \<lfloor>q\<rfloor> \<le> q" "q < of_int \<lfloor>q\<rfloor> + 1" by linarith+
  then show ?thesis by (auto simp: rne_def Let_def)
qed

lemma rne_near:
  assumes "\<bar>q - of_int n\<bar> < 1 / 2"
  shows "rne q = n"
proof -
  have "\<bar>(of_int (rne q) :: real) - of_int n\<bar> < 1"
    using rne_error [of q] assms by linarith
  then have "\<bar>(of_int (rne q - n) :: real)\<bar> < 1" by simp
  then have "\<bar>rne q - n\<bar> < 1" by linarith
  then show ?thesis by simp
qed

lemma floor_log2_iff:
  assumes "0 < x"
  shows "(\<lfloor>log 2 x\<rfloor> = k) = (2 powi k \<le> x \<and> x < 2 powi (k + 1))"
proof -
  have a: "(2::real) powi k = 2 powr real_of_int k"
    by (rule powr_real_of_int' [symmetric]) simp_all
  have b: "(2::real) powi (k + 1) = 2 powr real_of_int (k + 1)"
    by (rule powr_real_of_int' [symmetric]) simp_all
  show ?thesis unfolding a b using assms by (intro floor_log_eq_powr_iff) simp_all
qed

lemma floor_log2_le: "0 < x \<Longrightarrow> 2 powi \<lfloor>log 2 x\<rfloor> \<le> x"
  using floor_log2_iff [of x "\<lfloor>log 2 x\<rfloor>"] by blast

lemma floor_log2_less: "0 < x \<Longrightarrow> x < 2 powi (\<lfloor>log 2 x\<rfloor> + 1)"
  using floor_log2_iff [of x "\<lfloor>log 2 x\<rfloor>"] by blast

lemma floor_log2_eq: "0 < x \<Longrightarrow> 2 powi k \<le> x \<Longrightarrow> x < 2 powi (k + 1) \<Longrightarrow> \<lfloor>log 2 x\<rfloor> = k"
  using floor_log2_iff [of x k] by blast

lemma binade_less:
  assumes "0 < x"
  shows "x < 2 powi (binade x + 1)"
proof -
  have "x < 2 powi (\<lfloor>log 2 x\<rfloor> + 1)" using assms by (rule floor_log2_less)
  also have "\<dots> \<le> 2 powi (binade x + 1)"
    using assms by (intro power_int_increasing) (simp_all add: binade_def)
  finally show ?thesis .
qed

lemma binade_normal:
  assumes "2 powi (- 1022) \<le> x"
  shows "binade x = \<lfloor>log 2 x\<rfloor>"
proof -
  have pos: "0 < x" using assms zero_less_power_int [of "2::real" "- 1022"] by linarith
  have "- 1022 \<le> \<lfloor>log 2 x\<rfloor>"
  proof (rule ccontr)
    assume "\<not> - 1022 \<le> \<lfloor>log 2 x\<rfloor>"
    then have "\<lfloor>log 2 x\<rfloor> + 1 \<le> - 1022" by linarith
    then have "(2::real) powi (\<lfloor>log 2 x\<rfloor> + 1) \<le> 2 powi (- 1022)"
      by (intro power_int_increasing) simp_all
    with floor_log2_less [OF pos] assms show False by linarith
  qed
  then show ?thesis using pos by (simp add: binade_def)
qed

lemma binade_le:
  assumes "2 powi (- 1022) \<le> x"
  shows "2 powi binade x \<le> x"
proof -
  have pos: "0 < x" using assms zero_less_power_int [of "2::real" "- 1022"] by linarith
  show ?thesis unfolding binade_normal [OF assms] using pos by (rule floor_log2_le)
qed

lemma binade_mono:
  assumes "0 < x" "x \<le> y"
  shows "binade x \<le> binade y"
proof -
  have "log 2 x \<le> log 2 y" using assms by simp
  then have "\<lfloor>log 2 x\<rfloor> \<le> \<lfloor>log 2 y\<rfloor>" by (rule floor_mono)
  then show ?thesis using assms by (simp add: binade_def)
qed

lemma binade_eq:
  assumes "0 < x" "2 powi e \<le> x" "x < 2 powi (e + 1)" "- 1022 \<le> e"
  shows "binade x = e"
  using floor_log2_eq [OF assms(1-3)] assms(1,4) by (simp add: binade_def)

lemma binade_lower:
  assumes "0 < x" "binade x \<noteq> - 1022"
  shows "2 powi binade x \<le> x"
proof -
  have "binade x = \<lfloor>log 2 x\<rfloor>" using assms by (auto simp: binade_def max_def split: if_splits)
  then show ?thesis using floor_log2_le [OF assms(1)] by simp
qed

lemma ulp_pos: "0 < (2::real) powi k"
  by (simp add: zero_less_power_int)

lemma ulp_53: "(2::real) powi (e + 1) = of_int (2 ^ 53) * 2 powi (e - 52)"
proof -
  have "e + 1 = 53 + (e - 52)" by arith
  then have "(2::real) powi (e + 1) = 2 powi (53 + (e - 52))" by (rule arg_cong)
  also have "\<dots> = 2 powi 53 * 2 powi (e - 52)" by (subst power_int_add) simp_all
  finally show ?thesis by simp
qed

lemma ulp_52: "(2::real) powi e = of_int (2 ^ 52) * 2 powi (e - 52)"
proof -
  have "e = 52 + (e - 52)" by arith
  then have "(2::real) powi e = 2 powi (52 + (e - 52))" by (rule arg_cong)
  also have "\<dots> = 2 powi 52 * 2 powi (e - 52)" by (subst power_int_add) simp_all
  finally show ?thesis by simp
qed

lemma nearest64_nonneg:
  assumes "0 \<le> x"
  shows "0 \<le> nearest64 x"
proof (cases "x = 0")
  case True
  then show ?thesis by (simp add: nearest64_def)
next
  case False
  have "0 \<le> x / 2 powi (binade x - 52)" using assms ulp_pos [of "binade x - 52"] by simp
  then have "rne 0 \<le> rne (x / 2 powi (binade x - 52))" by (rule rne_mono)
  then have "0 \<le> rne (x / 2 powi (binade x - 52))" by (simp only: rne_0)
  then show ?thesis using False ulp_pos [of "binade x - 52"] by (simp add: nearest64_def)
qed

lemma nearest64_upper:
  assumes "0 < x"
  shows "nearest64 x \<le> 2 powi (binade x + 1)"
proof -
  define u :: real where "u = 2 powi (binade x - 52)"
  have u: "0 < u" by (simp add: u_def ulp_pos)
  have "x \<le> of_int (2 ^ 53) * u" using binade_less [OF assms] by (simp add: ulp_53 u_def)
  then have "x / u \<le> of_int (2 ^ 53)" using u by (simp add: field_simps)
  then have "rne (x / u) \<le> rne (of_int (2 ^ 53))" by (rule rne_mono)
  then have "rne (x / u) \<le> 2 ^ 53" by (simp only: rne_of_int)
  then have "(of_int (rne (x / u)) :: real) \<le> of_int (2 ^ 53)" by (simp only: of_int_le_iff)
  then have "of_int (rne (x / u)) * u \<le> of_int (2 ^ 53) * u" using u by (simp only: mult_le_cancel_right_pos)
  then show ?thesis using assms by (simp add: nearest64_def ulp_53 [of "binade x"] u_def)
qed

lemma nearest64_lower:
  assumes "0 < x" "2 powi binade x \<le> x"
  shows "2 powi binade x \<le> nearest64 x"
proof -
  define u :: real where "u = 2 powi (binade x - 52)"
  have u: "0 < u" by (simp add: u_def ulp_pos)
  have "of_int (2 ^ 52) * u \<le> x" using assms(2) by (simp add: ulp_52 [of "binade x"] u_def)
  then have "of_int (2 ^ 52) \<le> x / u" using u by (simp add: field_simps)
  then have "rne (of_int (2 ^ 52)) \<le> rne (x / u)" by (rule rne_mono)
  then have "2 ^ 52 \<le> rne (x / u)" by (simp only: rne_of_int)
  then have "(of_int (2 ^ 52) :: real) \<le> of_int (rne (x / u))" by (simp only: of_int_le_iff)
  then have "of_int (2 ^ 52) * u \<le> of_int (rne (x / u)) * u" using u by (simp only: mult_le_cancel_right_pos)
  then show ?thesis using assms(1) by (simp add: nearest64_def ulp_52 [of "binade x"] u_def)
qed

lemma nearest64_mono:
  assumes "0 \<le> x" "x \<le> y"
  shows "nearest64 x \<le> nearest64 y"
proof (cases "x = 0")
  case True
  then show ?thesis using nearest64_nonneg [of y] assms by (simp add: nearest64_def)
next
  case False
  then have x: "0 < x" and y: "0 < y" using assms by simp_all
  have le: "binade x \<le> binade y" using x assms(2) by (rule binade_mono)
  show ?thesis
  proof (cases "binade x = binade y")
    case True
    define u :: real where "u = 2 powi (binade y - 52)"
    have u: "0 < u" by (simp add: u_def ulp_pos)
    have "x / u \<le> y / u" using assms(2) u by (simp add: divide_right_mono)
    then have "rne (x / u) \<le> rne (y / u)" by (rule rne_mono)
    then have "(of_int (rne (x / u)) :: real) \<le> of_int (rne (y / u))" by (simp only: of_int_le_iff)
    then have "of_int (rne (x / u)) * u \<le> of_int (rne (y / u)) * u"
      using u by (simp only: mult_le_cancel_right_pos)
    then show ?thesis using x y by (simp add: nearest64_def True u_def)
  next
    case False
    then have lt: "binade x + 1 \<le> binade y" using le by simp
    then have "binade y \<noteq> - 1022" by (simp add: binade_def)
    then have low: "2 powi binade y \<le> y" using y by (intro binade_lower)
    have "nearest64 x \<le> 2 powi (binade x + 1)" using x by (rule nearest64_upper)
    also have "\<dots> \<le> 2 powi binade y" using lt by (intro power_int_increasing) simp_all
    also have "\<dots> \<le> nearest64 y" using y low by (rule nearest64_lower)
    finally show ?thesis .
  qed
qed

lemma nearest64_near:
  assumes "x \<noteq> 0" "binade x = e" "\<bar>x - of_int n * 2 powi (e - 52)\<bar> < 2 powi (e - 52) / 2"
  shows "nearest64 x = of_int n * 2 powi (e - 52)"
proof -
  define u :: real where "u = 2 powi (e - 52)"
  have u: "0 < u" by (simp add: u_def ulp_pos)
  have "x / u - of_int n = (x - of_int n * u) / u"
    using u by (simp add: diff_divide_distrib)
  then have "\<bar>x / u - of_int n\<bar> = \<bar>x - of_int n * u\<bar> / u"
    using u by simp
  also have "\<dots> < 1 / 2" using assms(3) u by (simp add: u_def [symmetric] field_simps)
  finally have "rne (x / u) = n" by (rule rne_near)
  then show ?thesis using assms(1,2) by (simp add: nearest64_def u_def)
qed

lemma binade_1: "binade 1 = 0"
  by (simp add: binade_def)

lemma nearest64_1: "nearest64 1 = 1"
  using nearest64_near [of 1 0 "2 ^ 52"] by (simp add: binade_1)


section \<open>Numbers in double precision\<close>

lemma binary64_bounded:
  assumes "0 \<le> x" "x \<le> c" "nearest64 c = c'" "c' < 2 powi 1024"
  shows "binary64 x = Fin (nearest64 x) \<and> 0 \<le> nearest64 x \<and> nearest64 x \<le> c'"
proof -
  have a: "0 \<le> nearest64 x" using assms(1) by (rule nearest64_nonneg)
  have b: "nearest64 x \<le> c'" using nearest64_mono [OF assms(1,2)] assms(3) by simp
  have "- (2 powi 1024) < (0::real)" by (simp add: ulp_pos)
  then have "binary64 x = Fin (nearest64 x)"
    using a b assms(4) by (simp add: binary64_def Let_def)
  then show ?thesis using a b by simp
qed

lemma binade_upper:
  assumes "0 < x" "x < 2 powi (e + 1)" "- 1022 \<le> e"
  shows "binade x \<le> e"
proof -
  have "\<lfloor>log 2 x\<rfloor> \<le> e"
  proof (rule ccontr)
    assume "\<not> \<lfloor>log 2 x\<rfloor> \<le> e"
    then have "e + 1 \<le> \<lfloor>log 2 x\<rfloor>" by linarith
    then have "(2::real) powi (e + 1) \<le> 2 powi \<lfloor>log 2 x\<rfloor>"
      by (intro power_int_increasing) simp_all
    with floor_log2_le [OF assms(1)] assms(2) show False by linarith
  qed
  then show ?thesis using assms(1,3) by (simp add: binade_def)
qed

lemma nearest64_error:
  assumes "0 \<le> x" "x < 2 powi (e + 1)" "- 1022 \<le> e"
  shows "\<bar>nearest64 x - x\<bar> \<le> 2 powi (e - 53)"
proof (cases "x = 0")
  case True
  then show ?thesis using ulp_pos [of "e - 53"] by (simp add: nearest64_def)
next
  case False
  then have pos: "0 < x" using assms(1) by simp
  define u :: real where "u = 2 powi (binade x - 52)"
  have u: "0 < u" by (simp add: u_def ulp_pos)
  have "nearest64 x - x = (of_int (rne (x / u)) - x / u) * u"
    using False u by (simp add: nearest64_def u_def left_diff_distrib)
  then have "\<bar>nearest64 x - x\<bar> = \<bar>of_int (rne (x / u)) - x / u\<bar> * u"
    using u by (simp add: abs_mult)
  also have "\<dots> \<le> 1 / 2 * u" using rne_error [of "x / u"] u by (intro mult_right_mono) simp_all
  also have "\<dots> = 2 powi (binade x - 53)"
  proof -
    have "binade x - 52 = 1 + (binade x - 53)" by arith
    then have "(2::real) powi (binade x - 52) = 2 powi (1 + (binade x - 53))" by (rule arg_cong)
    also have "\<dots> = 2 powi 1 * 2 powi (binade x - 53)" by (subst power_int_add) simp_all
    finally show ?thesis by (simp add: u_def)
  qed
  also have "\<dots> \<le> 2 powi (e - 53)"
    using binade_upper [OF pos assms(2,3)] by (intro power_int_increasing) simp_all
  finally show ?thesis .
qed

lemma binary64_0: "binary64 0 = Fin 0"
  by (simp add: binary64_def nearest64_def Let_def)

lemma binary64_1: "binary64 1 = Fin 1"
  by (simp add: binary64_def nearest64_1 Let_def)

lemma binary64_unit:
  assumes "0 \<le> x" "x \<le> 1"
  shows "in_unit (binary64 x)"
  using binary64_bounded [OF assms nearest64_1] by simp

lemma binary64_not_NaN: "binary64 x \<noteq> NaN"
  by (simp add: binary64_def Let_def)

lemma binary64_nonneg:
  assumes "0 \<le> x"
  shows "nonneg_or_inf (binary64 x)"
  using nearest64_nonneg [OF assms] by (simp add: binary64_def Let_def)

lemma binary64_pos:
  assumes "2 powi (- 1022) \<le> x"
  shows "pos_or_inf (binary64 x)"
proof -
  have pos: "0 < x" using assms ulp_pos [of "- 1022"] by linarith
  have "2 powi binade x \<le> nearest64 x"
    using pos binade_le [OF assms] by (rule nearest64_lower)
  then have "0 < nearest64 x" using ulp_pos [of "binade x"] by linarith
  then show ?thesis by (simp add: binary64_def Let_def)
qed

lemma binade_055: "binade 0.55 = - 1"
  by (rule binade_eq) simp_all

lemma binade_045: "binade 0.45 = - 2"
  by (rule binade_eq) simp_all

lemma nearest64_055: "nearest64 0.55 = 4953959590107546 / 2 ^ 53"
  using nearest64_near [of "0.55" "- 1" 4953959590107546] unfolding binade_055 by simp

lemma nearest64_045: "nearest64 0.45 = 8106479329266893 / 2 ^ 54"
  using nearest64_near [of "0.45" "- 2" 8106479329266893] unfolding binade_045 by simp

lemma nearest64_055_fixed: "nearest64 (4953959590107546 / 2 ^ 53) = 4953959590107546 / 2 ^ 53"
proof -
  have "binade (4953959590107546 / 2 ^ 53) = - 1" by (rule binade_eq) simp_all
  then show ?thesis
    using nearest64_near [of "4953959590107546 / 2 ^ 53" "- 1" 4953959590107546] by simp
qed

lemma nearest64_045_fixed: "nearest64 (8106479329266893 / 2 ^ 54) = 8106479329266893 / 2 ^ 54"
proof -
  have "binade (8106479329266893 / 2 ^ 54) = - 2" by (rule binade_eq) simp_all
  then show ?thesis
    using nearest64_near [of "8106479329266893 / 2 ^ 54" "- 2" 8106479329266893] by simp
qed

lemma nearest64_weights: "nearest64 (4953959590107546 / 2 ^ 53 + 8106479329266893 / 2 ^ 54) = 1"
proof -
  have "binade (4953959590107546 / 2 ^ 53 + 8106479329266893 / 2 ^ 54) = 0"
    by (rule binade_eq) simp_all
  then show ?thesis
    using nearest64_near [of "4953959590107546 / 2 ^ 53 + 8106479329266893 / 2 ^ 54" 0 "2 ^ 52"]
    by simp
qed

lemma binary64_055: "binary64 0.55 = Fin (4953959590107546 / 2 ^ 53)"
  unfolding binary64_def Let_def nearest64_055 by simp

lemma binary64_045: "binary64 0.45 = Fin (8106479329266893 / 2 ^ 54)"
  unfolding binary64_def Let_def nearest64_045 by simp

lemma rounded_Fin [simp]: "rounded rd (Fin r) = rd r"
  by (simp add: rounded_def)

lemma rounded_exact: "rounded Fin v = v"
  by (cases v) (simp_all add: rounded_def)

lemma rounded_special [simp]:
  "rounded rd PInf = PInf" "rounded rd NInf = NInf" "rounded rd NaN = NaN"
  by (simp_all add: rounded_def)

section \<open>The scoring functions in double precision\<close>

lemma fmul_square: "v \<noteq> NaN \<Longrightarrow> nonneg_or_inf (fmul binary64 v v)"
  by (cases v) (simp_all add: fmul_def binary64_nonneg)

lemma fadd_nonneg:
  "nonneg_or_inf u \<Longrightarrow> nonneg_or_inf v \<Longrightarrow> nonneg_or_inf (fadd binary64 u v)"
  by (cases u; cases v) (simp_all add: fadd_def binary64_nonneg)

lemma fsqrt_nonneg: "nonneg_or_inf v \<Longrightarrow> nonneg_or_inf (fsqrt binary64 v)"
  by (cases v) (simp_all add: fsqrt_def binary64_nonneg)

lemma nonneg_not_NaN: "nonneg_or_inf v \<Longrightarrow> v \<noteq> NaN"
  by (cases v) simp_all

lemma pos_not_NaN: "pos_or_inf v \<Longrightarrow> v \<noteq> NaN"
  by (cases v) simp_all

lemma abs_nonneg: "v \<noteq> NaN \<Longrightarrow> nonneg_or_inf (Math_abs v)"
  by (cases v) simp_all

lemma min_1_in_unit: "nonneg_or_inf v \<Longrightarrow> in_unit (Math_min (binary64 1) v)"
  by (cases v) (simp_all add: binary64_1)

lemma clamp_not_NaN:
  "v \<noteq> NaN \<Longrightarrow> in_unit (Math_max (binary64 0) (Math_min (binary64 1) v))"
  by (cases v) (simp_all add: binary64_0 binary64_1)

lemma magnitude_pos:
  assumes "nonneg_or_inf w"
  shows "pos_or_inf (Math_max (binary64 0.001) w)"
proof -
  have "pos_or_inf (binary64 0.001)" by (rule binary64_pos) simp
  then show ?thesis using assms by (cases "binary64 0.001"; cases w) simp_all
qed

lemma fdiv_not_NaN: "pos_or_inf m \<Longrightarrow> fdiv binary64 (Fin a) m \<noteq> NaN"
  by (cases m) (simp_all add: fdiv_def binary64_not_NaN)

lemma fsub_1_not_NaN: "v \<noteq> NaN \<Longrightarrow> fsub binary64 v (binary64 1) \<noteq> NaN"
  by (cases v) (simp_all add: fsub_def binary64_1 binary64_not_NaN)

lemma fmul_unit_nonneg:
  assumes "in_unit a" "in_unit b"
  shows "nonneg_or_inf (fmul binary64 a b)"
proof -
  obtain x y where "a = Fin x" "0 \<le> x" "b = Fin y" "0 \<le> y"
    using assms by (auto simp: in_unit_iff)
  then show ?thesis by (simp add: fmul_def binary64_nonneg)
qed

lemma fsub_unit_not_NaN:
  assumes "in_unit a" "nonneg_or_inf w"
  shows "fsub binary64 a w \<noteq> NaN"
proof -
  obtain x where "a = Fin x" using assms(1) by (auto simp: in_unit_iff)
  then show ?thesis using assms(2) by (cases w) (simp_all add: fsub_def binary64_not_NaN)
qed

lemma derive_fp_finite:
  assumes "finite_sample d"
  shows "in_unit (deriveAlignmentScore_fp binary64 d)"
proof -
  obtain a b c where d: "sample_x d = Fin a" "sample_y d = Fin b" "sample_z d = Fin c"
    using assms by (auto simp: finite_sample_def isFinite_iff)
  define m where "m = Math_max (binary64 0.001)
    (fsqrt binary64 (fadd binary64 (fadd binary64 (fmul binary64 (Fin a) (Fin a))
       (fmul binary64 (Fin b) (Fin b))) (fmul binary64 (Fin c) (Fin c))))"
  have m: "pos_or_inf m"
    unfolding m_def by (intro magnitude_pos fsqrt_nonneg fadd_nonneg fmul_square) simp_all
  define t where "t = Math_min (binary64 1)
    (Math_abs (fsub binary64 (Math_abs (fdiv binary64 (Fin c) m)) (binary64 1)))"
  define g where "g = Math_min (binary64 1) (Math_abs (fsub binary64 m (binary64 1)))"
  define l where "l = Math_min (binary64 1)
    (fsqrt binary64 (fadd binary64
       (fmul binary64 (fdiv binary64 (Fin a) m) (fdiv binary64 (Fin a) m))
       (fmul binary64 (fdiv binary64 (Fin b) m) (fdiv binary64 (Fin b) m))))"
  have t: "in_unit t"
    unfolding t_def
    by (intro min_1_in_unit abs_nonneg fsub_1_not_NaN nonneg_not_NaN fdiv_not_NaN m)
  have g: "in_unit g"
    unfolding g_def by (intro min_1_in_unit abs_nonneg fsub_1_not_NaN pos_not_NaN m)
  have l: "in_unit l"
    unfolding l_def
    by (intro min_1_in_unit fsqrt_nonneg fadd_nonneg fmul_square fdiv_not_NaN m)
  have w: "nonneg_or_inf (fadd binary64 (fadd binary64 (fmul binary64 (binary64 0.5) t)
             (fmul binary64 (binary64 0.3) g)) (fmul binary64 (binary64 0.2) l))"
    by (intro fadd_nonneg fmul_unit_nonneg binary64_unit t g l) simp_all
  have "in_unit (binary64 1)" by (simp add: binary64_1)
  then have "fsub binary64 (binary64 1) (fadd binary64 (fadd binary64 (fmul binary64 (binary64 0.5) t)
             (fmul binary64 (binary64 0.3) g)) (fmul binary64 (binary64 0.2) l)) \<noteq> NaN"
    using w by (rule fsub_unit_not_NaN)
  then show ?thesis
    unfolding deriveAlignmentScore_fp_def Let_def d m_def [symmetric]
      t_def [symmetric] g_def [symmetric] l_def [symmetric]
    by (rule clamp_not_NaN)
qed

lemma or0_fsub_not_NaN: "fsub binary64 (or0 (Fin a)) (or0 v) \<noteq> NaN"
  by (cases v) (simp_all add: fsub_def binary64_not_NaN)

lemma fdiv_delta:
  assumes "nonneg_or_inf v"
  shows "nonneg_or_inf (fdiv binary64 v (binary64 0.35))"
proof -
  have "pos_or_inf (binary64 0.35)" by (rule binary64_pos) simp
  moreover have "in_unit (binary64 0.35)" by (rule binary64_unit) simp_all
  ultimately obtain m where m: "binary64 0.35 = Fin m" "0 < m"
    by (cases "binary64 0.35") simp_all
  show ?thesis
    unfolding fdiv_def m(1) using assms m(2) by (cases v) (simp_all add: binary64_nonneg)
qed

lemma jitter_fp_finite:
  assumes "finite_sample d"
  shows "in_unit (computeJitterPenalty_fp binary64 prev d)"
proof (cases prev)
  case None
  then show ?thesis by (simp add: computeJitterPenalty_fp_def binary64_0)
next
  case (Some p)
  obtain a b c where d: "sample_x d = Fin a" "sample_y d = Fin b" "sample_z d = Fin c"
    using assms by (auto simp: finite_sample_def isFinite_iff)
  show ?thesis
    unfolding computeJitterPenalty_fp_def Some option.case Let_def d MAX_ACCEL_DELTA_def rounded_Fin
    by (intro min_1_in_unit fdiv_delta fsqrt_nonneg fadd_nonneg fmul_square or0_fsub_not_NaN)
qed

lemma composite_fp_finite:
  assumes "finite_sample d"
  shows "in_unit (composite_fp binary64 prev d)"
proof -
  have "in_unit (binary64 0.45)" by (rule binary64_unit) simp_all
  then have "nonneg_or_inf (fmul binary64 (computeJitterPenalty_fp binary64 prev d) (binary64 0.45))"
    by (intro fmul_unit_nonneg jitter_fp_finite assms)
  then have "fsub binary64 (deriveAlignmentScore_fp binary64 d)
     (fmul binary64 (computeJitterPenalty_fp binary64 prev d) (binary64 0.45)) \<noteq> NaN"
    by (intro fsub_unit_not_NaN derive_fp_finite assms)
  then show ?thesis unfolding composite_fp_def Let_def by (rule clamp_not_NaN)
qed

lemma scale_error:
  fixes y c k e :: real
  assumes "0 \<le> y" "y \<le> 1" "\<bar>c - k\<bar> \<le> e"
  shows "\<bar>y * c - y * k\<bar> \<le> e"
proof -
  have "y * c - y * k = y * (c - k)" by (simp add: algebra_simps)
  then have "\<bar>y * c - y * k\<bar> = y * \<bar>c - k\<bar>" using assms(1) by (simp add: abs_mult)
  also have "\<dots> \<le> 1 * e" using assms by (intro mult_mono) simp_all
  finally show ?thesis by simp
qed

lemma sum_error:
  fixes a b r p q p' q' :: real
  assumes "\<bar>a - p\<bar> \<le> e1" "\<bar>b - q\<bar> \<le> e2" "\<bar>r - (a + b)\<bar> \<le> e3"
    "\<bar>p - p'\<bar> \<le> e4" "\<bar>q - q'\<bar> \<le> e5"
  shows "\<bar>r - (p' + q')\<bar> \<le> e3 + e1 + e4 + e2 + e5"
  using assms by linarith

lemma smooth_fp_blend:
  assumes "0 \<le> x" "x \<le> 1" "0 \<le> y" "y \<le> 1"
  shows "\<exists>r. smooth_fp binary64 (Fin x) (Fin y) = Fin r \<and> 0 \<le> r \<and> r \<le> 1 \<and>
             \<bar>r - (y * 0.55 + x * 0.45)\<bar> \<le> 2 powi (- 51)"
proof -
  define c55 :: real where "c55 = 4953959590107546 / 2 ^ 53"
  define c45 :: real where "c45 = 8106479329266893 / 2 ^ 54"
  have c: "0 \<le> c55" "0 \<le> c45" "c55 < 2 powi 1024" "c45 < 2 powi 1024"
    by (simp_all add: c55_def c45_def)
  have e55: "\<bar>c55 - 0.55\<bar> \<le> 2 powi (- 54)" by (simp add: c55_def)
  have e45: "\<bar>c45 - 0.45\<bar> \<le> 2 powi (- 55)" by (simp add: c45_def)
  define a where "a = nearest64 (y * c55)"
  define b where "b = nearest64 (x * c45)"
  have ya: "0 \<le> y * c55" "y * c55 \<le> c55" using assms c by (simp_all add: mult_left_le_one_le)
  have a: "binary64 (y * c55) = Fin a" "0 \<le> a" "a \<le> c55"
    using binary64_bounded [of "y * c55" c55 c55] nearest64_055_fixed c(3) ya
    by (simp_all add: c55_def a_def)
  have xb: "0 \<le> x * c45" "x * c45 \<le> c45" using assms c by (simp_all add: mult_left_le_one_le)
  have b: "binary64 (x * c45) = Fin b" "0 \<le> b" "b \<le> c45"
    using binary64_bounded [of "x * c45" c45 c45] nearest64_045_fixed c(4) xb
    by (simp_all add: c45_def b_def)
  define r where "r = nearest64 (a + b)"
  have ab: "0 \<le> a + b" "a + b \<le> c55 + c45" using a b by simp_all
  have w: "nearest64 (c55 + c45) = 1" unfolding c55_def c45_def by (rule nearest64_weights)
  have r: "binary64 (a + b) = Fin r" "0 \<le> r" "r \<le> 1"
    using binary64_bounded [OF ab w] by (simp_all add: r_def)
  have ea: "\<bar>a - y * c55\<bar> \<le> 2 powi (- 54)"
  proof -
    have "y * c55 < 2 powi (- 1 + 1)" using ya(2) by (simp add: c55_def)
    then show ?thesis unfolding a_def using nearest64_error [OF ya(1), of "- 1"] by simp
  qed
  have eb: "\<bar>b - x * c45\<bar> \<le> 2 powi (- 55)"
  proof -
    have "x * c45 < 2 powi (- 2 + 1)" using xb(2) by (simp add: c45_def)
    then show ?thesis unfolding b_def using nearest64_error [OF xb(1), of "- 2"] by simp
  qed
  have er: "\<bar>r - (a + b)\<bar> \<le> 2 powi (- 53)"
  proof -
    have "a + b < 2 powi (0 + 1)" using ab(2) by (simp add: c55_def c45_def)
    then show ?thesis unfolding r_def using nearest64_error [OF ab(1), of 0] by simp
  qed
  have y55: "\<bar>y * c55 - y * 0.55\<bar> \<le> 2 powi (- 54)"
    using assms(3,4) e55 by (rule scale_error)
  have x45: "\<bar>x * c45 - x * 0.45\<bar> \<le> 2 powi (- 55)"
    using assms(1,2) e45 by (rule scale_error)
  have "\<bar>r - (y * 0.55 + x * 0.45)\<bar>
          \<le> 2 powi (- 53) + 2 powi (- 54) + 2 powi (- 54) + 2 powi (- 55) + (2::real) powi (- 55)"
    using ea eb er y55 x45 by (rule sum_error)
  also have "\<dots> \<le> 2 powi (- 51)" by simp
  finally have err: "\<bar>r - (y * 0.55 + x * 0.45)\<bar> \<le> 2 powi (- 51)" .
  have "smooth_fp binary64 (Fin x) (Fin y) = Fin r"
    unfolding smooth_fp_def fadd_def fmul_def binary64_055 binary64_045
      c55_def [symmetric] c45_def [symmetric]
    using a(1) b(1) r(1) by simp
  then show ?thesis using r(2,3) err by blast
qed

lemma smooth_fp_in_unit:
  assumes "in_unit c" "in_unit p"
  shows "in_unit (smooth_fp binary64 c p)"
proof -
  obtain x y where xy: "c = Fin x" "0 \<le> x" "x \<le> 1" "p = Fin y" "0 \<le> y" "y \<le> 1"
    using assms by (auto simp: in_unit_iff)
  show ?thesis using smooth_fp_blend [OF xy(2,3,5,6)] unfolding xy(1,4) by auto
qed

lemma derive_fp_exact: "deriveAlignmentScore_fp Fin d = deriveAlignmentScore d"
  unfolding deriveAlignmentScore_fp_def deriveAlignmentScore_def fadd_def fsub_def fmul_def
    fdiv_def fsqrt_def rounded_exact
  by (rule refl)

lemma jitter_fp_exact: "computeJitterPenalty_fp Fin prev d = computeJitterPenalty prev d"
  unfolding computeJitterPenalty_fp_def computeJitterPenalty_def fadd_def fsub_def fmul_def
    fdiv_def fsqrt_def rounded_exact MAX_ACCEL_DELTA_def
  by (rule refl)

lemma composite_fp_exact: "composite_fp Fin prev d = composite prev d"
  unfolding composite_fp_def composite_def derive_fp_exact jitter_fp_exact fsub_def fmul_def
    rounded_exact
  by (rule refl)

lemma smooth_fp_exact: "smooth_fp Fin c p = smooth c p"
  by (simp add: smooth_fp_def smooth_def fadd_def fmul_def rounded_exact)

lemma binary64_overflow:
  assumes "2 powi 1024 \<le> x"
  shows "binary64 x = PInf"
proof -
  have pos: "0 < x" using assms ulp_pos [of 1024] by linarith
  have "(2::real) powi (- 1022) \<le> 2 powi 1024" by (intro power_int_increasing) simp_all
  then have n: "2 powi (- 1022) \<le> x" using assms by linarith
  have "1024 \<le> \<lfloor>log 2 x\<rfloor>"
  proof (rule ccontr)
    assume "\<not> 1024 \<le> \<lfloor>log 2 x\<rfloor>"
    then have "\<lfloor>log 2 x\<rfloor> + 1 \<le> 1024" by linarith
    then have "(2::real) powi (\<lfloor>log 2 x\<rfloor> + 1) \<le> 2 powi 1024"
      by (intro power_int_increasing) simp_all
    with floor_log2_less [OF pos] assms show False by linarith
  qed
  then have "(2::real) powi 1024 \<le> 2 powi binade x"
    unfolding binade_normal [OF n] by (intro power_int_increasing) simp_all
  also have "\<dots> \<le> nearest64 x" using pos binade_le [OF n] by (rule nearest64_lower)
  finally show ?thesis by (simp add: binary64_def Let_def)
qed

lemma binary64_value:
  assumes "x \<noteq> 0" "2 powi e \<le> \<bar>x\<bar>" "\<bar>x\<bar> < 2 powi (e + 1)" "- 1022 \<le> e"
    and "rne (x / 2 powi (e - 52)) = n" "\<bar>of_int n * 2 powi (e - 52)\<bar> < (2::real) powi 1024"
  shows "binary64 x = Fin (of_int n * 2 powi (e - 52))"
proof -
  have "binade \<bar>x\<bar> = e" using assms(1-4) by (intro binade_eq) simp_all
  then have "binade x = e" by (simp add: binade_def)
  then have "nearest64 x = of_int n * 2 powi (e - 52)"
    using assms(1,5) by (simp add: nearest64_def)
  then show ?thesis using assms(6) by (auto simp: binary64_def Let_def)
qed

lemma overflow_square: "fmul binary64 (Fin (10 ^ 200)) (Fin (10 ^ 200)) = PInf"
proof -
  have "(2::real) powi 1024 \<le> 10 ^ 200 * 10 ^ 200" by simp
  then show ?thesis by (simp only: fmul_def times_jsnum.simps rounded_Fin binary64_overflow)
qed

lemma binary64_minus_1: "binary64 (- 1) = Fin (- 1)"
  using binary64_value [of "- 1" 0 "- (2 ^ 52)"] by (simp add: rne_def)

lemma binary64_half: "binary64 (1 / 2) = Fin (1 / 2)"
  using binary64_value [of "1 / 2" "- 1" "2 ^ 52"] by (simp add: rne_def)

lemma binary64_03: "binary64 0.3 = Fin (5404319552844595 / 2 ^ 54)"
  using binary64_value [of "0.3" "- 2" 5404319552844595] by (simp add: rne_def)

lemma binary64_03_fixed: "binary64 (5404319552844595 / 2 ^ 54) = Fin (5404319552844595 / 2 ^ 54)"
  using binary64_value [of "5404319552844595 / 2 ^ 54" "- 2" 5404319552844595] by (simp add: rne_def)

lemma binary64_08: "binary64 (1 / 2 + 5404319552844595 / 2 ^ 54) = Fin (7205759403792794 / 2 ^ 53)"
  using binary64_value [of "1 / 2 + 5404319552844595 / 2 ^ 54" "- 1" 7205759403792794] by (simp add: rne_def)

lemma binary64_08_fixed: "binary64 (7205759403792794 / 2 ^ 53) = Fin (7205759403792794 / 2 ^ 53)"
  using binary64_value [of "7205759403792794 / 2 ^ 53" "- 1" 7205759403792794] by (simp add: rne_def)

lemma binary64_diff: "binary64 (1 - 7205759403792794 / 2 ^ 53) = Fin (1801439850948198 / 2 ^ 53)"
  using binary64_value [of "1 - 7205759403792794 / 2 ^ 53" "- 3" 7205759403792792] by (simp add: rne_def)

lemma derive_fp_huge:
  "deriveAlignmentScore_fp binary64 \<lparr>sample_x = Fin 0, sample_y = Fin 0, sample_z = Fin (10 ^ 200)\<rparr>
     = Fin (1801439850948198 / 2 ^ 53)"
proof -
  have m: "Math_max (binary64 0.001)
      (fsqrt binary64 (fadd binary64 (fadd binary64 (fmul binary64 (Fin 0) (Fin 0))
         (fmul binary64 (Fin 0) (Fin 0))) (fmul binary64 (Fin (10 ^ 200)) (Fin (10 ^ 200))))) = PInf"
  proof -
    have "in_unit (binary64 0.001)" by (rule binary64_unit) simp_all
    then obtain r where "binary64 0.001 = Fin r" by (auto simp: in_unit_iff)
    then show ?thesis
      unfolding overflow_square by (simp add: fmul_def fadd_def fsqrt_def binary64_0)
  qed
  have t: "Math_min (binary64 1)
      (Math_abs (fsub binary64 (Math_abs (fdiv binary64 (Fin (10 ^ 200)) PInf)) (binary64 1))) = Fin 1"
    by (simp add: fdiv_def fsub_def binary64_0 binary64_1 binary64_minus_1)
  have g: "Math_min (binary64 1) (Math_abs (fsub binary64 PInf (binary64 1))) = Fin 1"
    by (simp add: fsub_def binary64_1)
  have l: "Math_min (binary64 1)
      (fsqrt binary64 (fadd binary64
         (fmul binary64 (fdiv binary64 (Fin 0) PInf) (fdiv binary64 (Fin 0) PInf))
         (fmul binary64 (fdiv binary64 (Fin 0) PInf) (fdiv binary64 (Fin 0) PInf)))) = Fin 0"
    by (simp add: fdiv_def fmul_def fadd_def fsqrt_def binary64_0 binary64_1)
  have w1: "fmul binary64 (binary64 0.5) (Fin 1) = Fin (1 / 2)"
    by (simp add: fmul_def binary64_half)
  have w2: "fmul binary64 (binary64 0.3) (Fin 1) = Fin (5404319552844595 / 2 ^ 54)"
    by (simp only: binary64_03 fmul_def times_jsnum.simps rounded_Fin mult_1_right binary64_03_fixed)
  have w3: "fmul binary64 (binary64 0.2) (Fin 0) = Fin 0"
  proof -
    have "in_unit (binary64 0.2)" by (rule binary64_unit) simp_all
    then obtain r where "binary64 0.2 = Fin r" by (auto simp: in_unit_iff)
    then show ?thesis by (simp add: fmul_def binary64_0)
  qed
  have s1: "fadd binary64 (Fin (1 / 2)) (Fin (5404319552844595 / 2 ^ 54))
      = Fin (7205759403792794 / 2 ^ 53)"
    by (simp only: fadd_def plus_jsnum.simps rounded_Fin binary64_08)
  have s2: "fadd binary64 (Fin (7205759403792794 / 2 ^ 53)) (Fin 0) = Fin (7205759403792794 / 2 ^ 53)"
    by (simp only: fadd_def plus_jsnum.simps rounded_Fin add_0_right binary64_08_fixed)
  have s3: "fsub binary64 (binary64 1) (Fin (7205759403792794 / 2 ^ 53))
      = Fin (1801439850948198 / 2 ^ 53)"
    by (simp only: binary64_1 fsub_def minus_jsnum.simps rounded_Fin binary64_diff)
  have c: "Math_max (binary64 0) (Math_min (binary64 1) (Fin (1801439850948198 / 2 ^ 53)))
      = Fin (1801439850948198 / 2 ^ 53)"
    by (simp add: binary64_0 binary64_1)
  show ?thesis
    unfolding deriveAlignmentScore_fp_def Let_def sample.simps m t g l w1 w2 w3 s1 s2 s3 c
    by (rule refl)
qed

section \<open>What the clearing functions leave\<close>

lemma clearAutoCaptureTimer_eq:
  "clearAutoCaptureTimer p s =
     s\<lparr>autoCaptureTimerRef := None, fiducialCheckIntervalRef := None,
       fiducialCheckInProgressRef := False, autoCaptureLockRef := (p \<and> autoCaptureLockRef s),
       autoCaptureCountdown := 0,
       callbacks := filter (\<lambda>q. keep (autoCaptureTimerRef s) q \<and> keep (fiducialCheckIntervalRef s) q)
                      (callbacks s)\<rparr>"
  by (cases s; cases "autoCaptureTimerRef s"; cases "fiducialCheckIntervalRef s"; cases p)
     (simp_all add: clearAutoCaptureTimer_def clearInterval_def Let_def keep_def)

lemma stopAlignmentMonitoring_eq:
  "stopAlignmentMonitoring s =
     s\<lparr>accelerometerSubscriptionRef := None, lastAccelSampleRef := None,
       fiducialCheckIntervalRef := None, fiducialCheckInProgressRef := False,
       fiducialCount := 0, fiducialQuality := 0, fiducialReady := False,
       callbacks := filter (\<lambda>q. keep (accelerometerSubscriptionRef s) q \<and> keep (fiducialCheckIntervalRef s) q)
                      (callbacks s)\<rparr>"
  by (cases s; cases "accelerometerSubscriptionRef s"; cases "fiducialCheckIntervalRef s")
     (simp_all add: stopAlignmentMonitoring_def clearInterval_def Let_def keep_def)

lemma handleCloseCamera_eq:
  "handleCloseCamera s =
     s\<lparr>cameraVisible := False, cameraReady := False,
       accelerometerSubscriptionRef := None, lastAccelSampleRef := None,
       fiducialCheckIntervalRef := None, fiducialCheckInProgressRef := False,
       fiducialCount := 0, fiducialQuality := 0, fiducialReady := False,
       autoCaptureTimerRef := None, autoCaptureLockRef := False, autoCaptureCountdown := 0,
       alignmentScore := Fin 0, alignmentStatus := StatusEmpty,
       callbacks := filter (\<lambda>q. keep (accelerometerSubscriptionRef s) q \<and>
                                  keep (fiducialCheckIntervalRef s) q \<and>
                                  keep (autoCaptureTimerRef s) q) (callbacks s)\<rparr>"
  by (cases s)
     (simp add: handleCloseCamera_def Let_def stopAlignmentMonitoring_eq clearAutoCaptureTimer_eq
        keep_def conj_commute conj_left_commute)

lemma monitoringReset_eq:
  "monitoringReset s =
     s\<lparr>accelerometerSubscriptionRef := None, lastAccelSampleRef := None,
       fiducialCheckIntervalRef := None, fiducialCheckInProgressRef := False,
       fiducialCount := 0, fiducialQuality := 0, fiducialReady := False,
       autoCaptureTimerRef := None, autoCaptureLockRef := False, autoCaptureCountdown := 0,
       alignmentScore := Fin 0, alignmentStatus := StatusEmpty,
       callbacks := filter (\<lambda>q. keep (accelerometerSubscriptionRef s) q \<and>
                                  keep (fiducialCheckIntervalRef s) q \<and>
                                  keep (autoCaptureTimerRef s) q) (callbacks s)\<rparr>"
  by (cases s)
     (simp add: monitoringReset_def Let_def stopAlignmentMonitoring_eq clearAutoCaptureTimer_eq
        keep_def conj_commute conj_left_commute)

section \<open>The invariant holds in every reachable screen\<close>

lemma owned_at_iff:
  "owned_at cb t f a = (\<forall>i c ms. (i, c, ms) \<in> set cb \<longrightarrow> owner t f a c = Some i)"
  by (auto simp: owned_at_def list_all_iff)

lemma owned_at_Nil: "owned_at [] t f a"
  by (simp add: owned_at_def)

lemma owned_at_clear_tf:
  "owned_at cb t f a \<Longrightarrow> owned_at (filter (\<lambda>q. keep t q \<and> keep f q) cb) None None a"
  unfolding owned_at_iff
proof (intro allI impI)
  fix i c ms
  assume h: "\<forall>i c ms. (i, c, ms) \<in> set cb \<longrightarrow> owner t f a c = Some i"
    and m: "(i, c, ms) \<in> set (filter (\<lambda>q. keep t q \<and> keep f q) cb)"
  then have o: "owner t f a c = Some i" and k: "Some i \<noteq> t" "Some i \<noteq> f"
    by (auto simp: keep_def)
  then show "owner None None a c = Some i"
    by (cases c) (auto simp: owner_def)
qed

lemma owned_at_clear_af:
  "owned_at cb t f a \<Longrightarrow> owned_at (filter (\<lambda>q. keep a q \<and> keep f q) cb) t None None"
  unfolding owned_at_iff
proof (intro allI impI)
  fix i c ms
  assume h: "\<forall>i c ms. (i, c, ms) \<in> set cb \<longrightarrow> owner t f a c = Some i"
    and m: "(i, c, ms) \<in> set (filter (\<lambda>q. keep a q \<and> keep f q) cb)"
  then have o: "owner t f a c = Some i" and k: "Some i \<noteq> a" "Some i \<noteq> f"
    by (auto simp: keep_def)
  then show "owner t None None c = Some i"
    by (cases c) (auto simp: owner_def)
qed

lemma owned_at_clear_all:
  "owned_at cb t f a \<Longrightarrow> filter (\<lambda>q. keep a q \<and> keep f q \<and> keep t q) cb = []"
  unfolding owned_at_iff filter_empty_conv
proof
  fix q
  assume h: "\<forall>i c ms. (i, c, ms) \<in> set cb \<longrightarrow> owner t f a c = Some i" and q: "q \<in> set cb"
  obtain i c ms where q': "q = (i, c, ms)" by (cases q)
  with h q have "owner t f a c = Some i" by blast
  then show "\<not> (keep a q \<and> keep f q \<and> keep t q)"
    unfolding q' by (cases c) (auto simp: owner_def keep_def)
qed

lemma owned_at_countdown:
  "owned_at cb None f a \<Longrightarrow> owned_at (cb @ [(n, Countdown st, ms)]) (Some n) f a"
  unfolding owned_at_iff
proof (intro allI impI)
  fix i c m
  assume h: "\<forall>i c ms. (i, c, ms) \<in> set cb \<longrightarrow> owner None f a c = Some i"
    and m: "(i, c, m) \<in> set (cb @ [(n, Countdown st, ms)])"
  then consider "(i, c, m) \<in> set cb" | "i = n" "c = Countdown st" by auto
  then show "owner (Some n) f a c = Some i"
  proof cases
    case 1
    with h have "owner None f a c = Some i" by blast
    then show ?thesis by (cases c) (auto simp: owner_def)
  next
    case 2
    then show ?thesis by (simp add: owner_def)
  qed
qed

lemma owned_at_monitoring:
  "owned_at cb t None None \<Longrightarrow>
     owned_at (cb @ [(n, MotionListener, ms), (m, FiducialPoll, ms')]) t (Some m) (Some n)"
  unfolding owned_at_iff
proof (intro allI impI)
  fix i c k
  assume h: "\<forall>i c ms. (i, c, ms) \<in> set cb \<longrightarrow> owner t None None c = Some i"
    and m: "(i, c, k) \<in> set (cb @ [(n, MotionListener, ms), (m, FiducialPoll, ms')])"
  then consider "(i, c, k) \<in> set cb" | "i = n" "c = MotionListener" | "i = m" "c = FiducialPoll"
    by auto
  then show "owner t (Some m) (Some n) c = Some i"
  proof cases
    case 1
    with h have "owner t None None c = Some i" by blast
    then show ?thesis by (cases c) (auto simp: owner_def)
  qed (simp_all add: owner_def)
qed

lemma inv0_clearAutoCaptureTimer:
  "inv0 s \<Longrightarrow> inv0 (clearAutoCaptureTimer p s)"
  by (simp add: inv0_def owned_def clearAutoCaptureTimer_eq owned_at_clear_tf)

lemma inv0_handleCloseCamera:
  "inv0 s \<Longrightarrow> inv0 (handleCloseCamera s)"
  by (simp add: inv0_def owned_def handleCloseCamera_eq owned_at_clear_all owned_at_Nil)

lemma inv0_monitoringReset:
  "inv0 s \<Longrightarrow> inv0 (monitoringReset s)"
  by (simp add: inv0_def owned_def monitoringReset_eq owned_at_clear_all owned_at_Nil)

lemma inv0_monitoringBody:
  assumes "inv0 s" "accelerometerSubscriptionRef s = None" "fiducialCheckIntervalRef s = None"
  shows "inv0 (monitoringBody s)"
proof (cases "cameraVisible s")
  case True
  with assms show ?thesis
    by (simp add: inv0_def owned_def monitoringBody_def setInterval_def owned_at_monitoring)
next
  case False
  with inv0_monitoringReset [OF assms(1)] show ?thesis
    by (simp add: monitoringBody_def inv0_def owned_def monitoringReset_eq)
qed

lemma monitoringReset_refs:
  "accelerometerSubscriptionRef (monitoringReset s) = None"
  "fiducialCheckIntervalRef (monitoringReset s) = None"
  by (simp_all add: monitoringReset_eq)

lemma inv0_monitoringEffect:
  assumes "inv0 s"
  shows "inv0 (monitoringEffect s)"
proof (cases "monitoringCleanup s")
  case True
  have "inv0 (monitoringBody (monitoringReset s))"
    by (intro inv0_monitoringBody inv0_monitoringReset assms monitoringReset_refs)
  with True show ?thesis by (simp add: monitoringEffect_def)
next
  case False
  with assms have "accelerometerSubscriptionRef s = None" "fiducialCheckIntervalRef s = None"
    by (simp_all add: inv0_def)
  then have "inv0 (monitoringBody s)" by (intro inv0_monitoringBody assms)
  with False show ?thesis by (simp add: monitoringEffect_def)
qed

lemma inv0_status: "inv0 (s\<lparr>alignmentStatus := v\<rparr>) = inv0 s"
  by (simp add: inv0_def owned_def)

lemma effect_unusable:
  "\<not> cameraVisible s \<Longrightarrow>
     autoCaptureEffect now s = clearAutoCaptureTimer False (s\<lparr>alignmentStatus := CameraClosed\<rparr>)"
  "cameraVisible s \<Longrightarrow> \<not> cameraReady s \<Longrightarrow>
     autoCaptureEffect now s = clearAutoCaptureTimer False (s\<lparr>alignmentStatus := FocusingCamera\<rparr>)"
  "cameraVisible s \<Longrightarrow> cameraReady s \<Longrightarrow> \<not> autoCaptureEnabled s \<Longrightarrow>
     autoCaptureEffect now s = clearAutoCaptureTimer False (s\<lparr>alignmentStatus := AutoCaptureDisabled\<rparr>)"
  by (simp_all add: autoCaptureEffect_def)

lemma effect_locked:
  "usable s \<Longrightarrow> autoCaptureLockRef s \<Longrightarrow> autoCaptureEffect now s = s\<lparr>alignmentStatus := Capturing\<rparr>"
  by (simp add: autoCaptureEffect_def usable_def)

lemma effect_start:
  "usable s \<Longrightarrow> \<not> autoCaptureLockRef s \<Longrightarrow> bothConditionsMet s \<Longrightarrow> autoCaptureTimerRef s = None \<Longrightarrow>
     autoCaptureEffect now s =
       s\<lparr>alignmentStatus := CapturingSoon, autoCaptureCountdown := AUTO_CAPTURE_START_MS,
         callbacks := callbacks s @ [(nextId s, Countdown now, 120)], nextId := Suc (nextId s),
         autoCaptureTimerRef := Some (nextId s)\<rparr>"
  by (simp add: autoCaptureEffect_def usable_def setInterval_def)

lemma effect_cancel:
  "usable s \<Longrightarrow> \<not> autoCaptureLockRef s \<Longrightarrow> \<not> bothConditionsMet s \<Longrightarrow> autoCaptureTimerRef s \<noteq> None \<Longrightarrow>
     autoCaptureEffect now s = (clearAutoCaptureTimer False s)\<lparr>alignmentStatus := statusMessage s\<rparr>"
  by (simp add: autoCaptureEffect_def usable_def)

lemma effect_idle:
  "usable s \<Longrightarrow> \<not> autoCaptureLockRef s \<Longrightarrow> \<not> bothConditionsMet s \<Longrightarrow> autoCaptureTimerRef s = None \<Longrightarrow>
     autoCaptureEffect now s = s\<lparr>alignmentStatus := statusMessage s\<rparr>"
  by (simp add: autoCaptureEffect_def usable_def)

lemma effect_keep:
  "usable s \<Longrightarrow> \<not> autoCaptureLockRef s \<Longrightarrow> bothConditionsMet s \<Longrightarrow> autoCaptureTimerRef s \<noteq> None \<Longrightarrow>
     autoCaptureEffect now s = s\<lparr>alignmentStatus := statusMessage s\<rparr>"
  by (auto simp add: autoCaptureEffect_def usable_def)

lemma effect_cases:
  obtains (unusable) "\<not> usable s"
  | (locked) "usable s" "autoCaptureLockRef s"
  | (start) "usable s" "\<not> autoCaptureLockRef s" "bothConditionsMet s" "autoCaptureTimerRef s = None"
  | (cancel) "usable s" "\<not> autoCaptureLockRef s" "\<not> bothConditionsMet s" "autoCaptureTimerRef s \<noteq> None"
  | (idle) "usable s" "\<not> autoCaptureLockRef s" "\<not> bothConditionsMet s" "autoCaptureTimerRef s = None"
  | (keep) "usable s" "\<not> autoCaptureLockRef s" "bothConditionsMet s" "autoCaptureTimerRef s \<noteq> None"
  by blast

lemma effect_unusable_inv0:
  assumes "inv0 s" "\<not> usable s"
  shows "inv0 (autoCaptureEffect now s)"
proof -
  have "\<exists>v. autoCaptureEffect now s = clearAutoCaptureTimer False (s\<lparr>alignmentStatus := v\<rparr>)"
    using assms(2) effect_unusable [of s now] unfolding usable_def by blast
  then show ?thesis
    using assms(1) by (auto simp: inv0_clearAutoCaptureTimer inv0_status)
qed

lemma inv0_autoCaptureEffect:
  assumes "inv0 s"
  shows "inv0 (autoCaptureEffect now s)"
proof (cases s rule: effect_cases)
  case unusable
  then show ?thesis by (rule effect_unusable_inv0 [OF assms])
next
  case locked
  then show ?thesis by (simp add: effect_locked inv0_status assms)
next
  case start
  then show ?thesis
    using assms by (simp add: effect_start inv0_def owned_def owned_at_countdown usable_def)
next
  case cancel
  then show ?thesis by (simp add: effect_cancel inv0_status inv0_clearAutoCaptureTimer assms)
next
  case idle
  then show ?thesis by (simp add: effect_idle inv0_status assms)
next
  case keep
  then show ?thesis by (simp add: effect_keep inv0_status assms)
qed

lemma inv0_cong:
  assumes "callbacks t = callbacks s" "autoCaptureTimerRef t = autoCaptureTimerRef s"
    "fiducialCheckIntervalRef t = fiducialCheckIntervalRef s"
    "accelerometerSubscriptionRef t = accelerometerSubscriptionRef s"
    "cameraVisible t = cameraVisible s" "cameraReady t = cameraReady s"
    "autoCaptureEnabled t = autoCaptureEnabled s" "autoCaptureLockRef t = autoCaptureLockRef s"
    "monitoringCleanup t = monitoringCleanup s"
    "fiducialCheckInProgressRef t = fiducialCheckInProgressRef s"
  shows "inv0 t = inv0 s"
  by (simp add: inv0_def owned_def assms)

lemma inv0_handleTakePhoto: "inv0 s \<Longrightarrow> inv0 (handleTakePhoto a s)"
proof -
  assume h: "inv0 s"
  have "inv0 (t\<lparr>capturesInFlight := n\<rparr>) = inv0 t" for t n by (rule inv0_cong) simp_all
  moreover have "inv0 (s\<lparr>cameraError := m\<rparr>) = inv0 s" for m by (rule inv0_cong) simp_all
  ultimately show ?thesis
    using h by (simp add: handleTakePhoto_def Let_def inv0_clearAutoCaptureTimer)
qed

lemma inv0_lock_after_clear:
  assumes "inv0 s"
  shows "inv0 ((clearAutoCaptureTimer True (s\<lparr>autoCaptureCountdown := r\<rparr>))
                 \<lparr>autoCaptureLockRef := True, autoCaptureFired := n\<rparr>)"
proof -
  have "inv0 (s\<lparr>autoCaptureCountdown := r\<rparr>)"
    using assms by (simp add: inv0_cong [of "s\<lparr>autoCaptureCountdown := r\<rparr>" s])
  then have "inv0 (clearAutoCaptureTimer True (s\<lparr>autoCaptureCountdown := r\<rparr>))"
    by (rule inv0_clearAutoCaptureTimer)
  moreover have "autoCaptureTimerRef (clearAutoCaptureTimer True (s\<lparr>autoCaptureCountdown := r\<rparr>)) = None"
    by (simp add: clearAutoCaptureTimer_eq)
  ultimately show ?thesis by (simp add: inv0_def owned_def)
qed

lemma inv0_countdownTick: "inv0 s \<Longrightarrow> inv0 (countdownTick started now s)"
proof -
  assume h: "inv0 s"
  have "inv0 (s\<lparr>autoCaptureCountdown := r\<rparr>)" for r
    using h by (simp add: inv0_cong [of "s\<lparr>autoCaptureCountdown := r\<rparr>" s])
  then show ?thesis
    by (simp add: countdownTick_def Let_def inv0_handleTakePhoto inv0_lock_after_clear [OF h])
qed

lemma inv0_handleOpenCamera: "inv0 s \<Longrightarrow> inv0 (handleOpenCamera g s)"
proof -
  assume h: "inv0 s"
  have "inv0 (s\<lparr>cameraError := []\<rparr>)"
    using h by (simp add: inv0_cong [of "s\<lparr>cameraError := []\<rparr>" s])
  then have c: "inv0 (clearAutoCaptureTimer False (s\<lparr>cameraError := []\<rparr>))"
    by (rule inv0_clearAutoCaptureTimer)
  have t: "autoCaptureTimerRef (clearAutoCaptureTimer False (s\<lparr>cameraError := []\<rparr>)) = None"
    "\<not> fiducialCheckInProgressRef (clearAutoCaptureTimer False (s\<lparr>cameraError := []\<rparr>))"
    by (simp_all add: clearAutoCaptureTimer_eq)
  show ?thesis
    using c t unfolding handleOpenCamera_def Let_def
    by (cases g) (simp_all add: inv0_def owned_def)
qed

lemma inv0_finally: "inv0 s \<Longrightarrow> inv0 (handleTakePhoto_finally s)"
proof -
  assume h: "inv0 s"
  have "clearAutoCaptureTimer False (s\<lparr>autoCaptureLockRef := False\<rparr>) = clearAutoCaptureTimer False s"
    by (simp add: clearAutoCaptureTimer_eq)
  then show ?thesis
    using h by (simp add: handleTakePhoto_finally_def inv0_clearAutoCaptureTimer)
qed

lemma inv0_resolved: "inv0 s \<Longrightarrow> inv0 (handleTakePhoto_resolved s)"
proof -
  assume h: "inv0 s"
  have "inv0 (t\<lparr>capturesInFlight := n, processingInFlight := m\<rparr>) = inv0 t" for t n m
    by (rule inv0_cong) simp_all
  then show ?thesis
    using h by (simp add: handleTakePhoto_resolved_def Let_def inv0_handleCloseCamera)
qed

lemma inv0_rejected: "inv0 s \<Longrightarrow> inv0 (handleTakePhoto_rejected m s)"
proof -
  assume h: "inv0 s"
  have a: "inv0 (t\<lparr>capturesInFlight := n\<rparr>) = inv0 t" for t n by (rule inv0_cong) simp_all
  have "inv0 (s\<lparr>cameraError := e\<rparr>)" for e
    using h by (simp add: inv0_cong [of "s\<lparr>cameraError := e\<rparr>" s])
  then show ?thesis
    by (simp add: handleTakePhoto_rejected_def Let_def a inv0_handleCloseCamera inv0_finally)
qed

lemma inv0_processed: "inv0 s \<Longrightarrow> inv0 (handleTakePhoto_processed s)"
proof -
  assume h: "inv0 s"
  have a: "inv0 (t\<lparr>processingInFlight := n\<rparr>) = inv0 t" for t n by (rule inv0_cong) simp_all
  show ?thesis using h by (simp add: handleTakePhoto_processed_def Let_def a inv0_finally)
qed

lemma inv0_toggle: "inv0 s \<Longrightarrow> inv0 (toggleAutoCapture s)"
proof (cases "autoCaptureEnabled s")
  case True
  assume "inv0 s"
  then have "inv0 (clearAutoCaptureTimer False s)" by (rule inv0_clearAutoCaptureTimer)
  moreover have "autoCaptureTimerRef (clearAutoCaptureTimer False s) = None"
    by (simp add: clearAutoCaptureTimer_eq)
  ultimately show ?thesis using True by (simp add: toggleAutoCapture_def inv0_def owned_def)
next
  case False
  assume "inv0 s"
  with False show ?thesis by (auto simp: toggleAutoCapture_def inv0_def owned_def)
qed

lemma inv0_begin: "screen_inv s \<Longrightarrow> inv0 (checkFiducials_begin s)"
  by (simp add: checkFiducials_begin_def screen_inv_def inv0_def owned_def)

lemma inv0_settle: "inv0 s \<Longrightarrow> inv0 (checkFiducials_settle snap net s)"
proof -
  assume h: "inv0 s"
  have a: "inv0 (applyFiducialResult r s) = inv0 s" for r
    by (rule inv0_cong) (simp_all add: applyFiducialResult_def)
  have b: "inv0 t \<Longrightarrow> inv0 (t\<lparr>fiducialCheckInProgressRef := False, checksInFlight := n\<rparr>)" for t n
    by (simp add: inv0_def owned_def)
  show ?thesis
    unfolding checkFiducials_settle_def Let_def
    by (rule b) (simp add: a h split: snapshot_outcome.split sum.split)
qed

lemma inv0_listener: "inv0 (accelerometerListener d s) = inv0 s"
  by (rule inv0_cong) (simp_all add: accelerometerListener_def)

lemma inv0_handle: "screen_inv s \<Longrightarrow> inv0 (handle e s)"
proof (cases e)
  case (IntervalFires i now)
  assume "screen_inv s"
  then show ?thesis
    unfolding IntervalFires handle_def event.case
    by (auto simp: screen_inv_def inv0_countdownTick fiducialPollTick_def inv0_begin
             split: option.split closure.split prod.split)
next
  case (AccelerometerUpdate i d)
  assume "screen_inv s"
  then show ?thesis
    unfolding AccelerometerUpdate handle_def event.case
    by (auto simp: screen_inv_def inv0_listener split: option.split closure.split prod.split)
next
  case CameraReady
  assume "screen_inv s"
  then show ?thesis
    unfolding CameraReady handle_def event.case by (auto simp: screen_inv_def inv0_def owned_def)
qed (simp_all add: handle_def screen_inv_def inv0_handleOpenCamera inv0_handleCloseCamera inv0_toggle
       inv0_handleTakePhoto inv0_monitoringEffect inv0_autoCaptureEffect inv0_settle
       inv0_resolved inv0_rejected inv0_processed)

lemma inv_step: "screen_inv s \<Longrightarrow> screen_inv (step e s)"
proof -
  assume "screen_inv s"
  then have h: "inv0 (handle e s)" by (rule inv0_handle)
  have "inv0 (t\<lparr>cameraRef := b\<rparr>) = inv0 t" for t b by (rule inv0_cong) simp_all
  with h show ?thesis by (simp add: step_def Let_def screen_inv_def)
qed

lemma inv_initial: "screen_inv initial"
  by (simp add: screen_inv_def inv0_def owned_def owned_at_def initial_def)

lemma inv_run: "screen_inv s \<Longrightarrow> screen_inv (run es s)"
  by (induction es arbitrary: s) (simp_all add: inv_step)

lemma inv_reachable: "screen_inv (run es initial)"
  by (rule inv_run [OF inv_initial])

section \<open>Who writes the alignment score\<close>

lemma score_clear: "alignmentScore (clearAutoCaptureTimer p s) = alignmentScore s"
  by (simp add: clearAutoCaptureTimer_eq)

lemma score_close: "alignmentScore (handleCloseCamera s) = Fin 0"
  by (simp add: handleCloseCamera_eq)

lemma score_reset: "alignmentScore (monitoringReset s) = Fin 0"
  by (simp add: monitoringReset_eq)

lemma score_open: "alignmentScore (handleOpenCamera g s) = Fin 0"
  by (simp add: handleOpenCamera_def Let_def)

lemma score_take: "alignmentScore (handleTakePhoto a s) = alignmentScore s"
  by (simp add: handleTakePhoto_def Let_def score_clear)

lemma score_finally: "alignmentScore (handleTakePhoto_finally s) = alignmentScore s"
  by (simp add: handleTakePhoto_finally_def score_clear)

lemma score_photo:
  "alignmentScore (handleTakePhoto_resolved s) = Fin 0"
  "alignmentScore (handleTakePhoto_rejected m s) = Fin 0"
  "alignmentScore (handleTakePhoto_processed s) = alignmentScore s"
  by (simp_all add: handleTakePhoto_resolved_def handleTakePhoto_rejected_def
        handleTakePhoto_processed_def Let_def score_close score_finally)

lemma score_toggle: "alignmentScore (toggleAutoCapture s) = alignmentScore s"
  by (simp add: toggleAutoCapture_def Let_def score_clear)

lemma score_body:
  "alignmentScore (monitoringBody s) = (if cameraVisible s then alignmentScore s else Fin 0)"
  by (simp add: monitoringBody_def setInterval_def score_reset)

lemma score_monitoring:
  "alignmentScore (monitoringEffect s) = alignmentScore s \<or> alignmentScore (monitoringEffect s) = Fin 0"
  by (simp add: monitoringEffect_def score_body score_reset)

lemma score_effect: "alignmentScore (autoCaptureEffect now s) = alignmentScore s"
  by (simp add: autoCaptureEffect_def Let_def setInterval_def score_clear)

lemma score_countdown: "alignmentScore (countdownTick st now s) = alignmentScore s"
  by (simp add: countdownTick_def Let_def score_take score_clear)

lemma score_check:
  "alignmentScore (checkFiducials_begin s) = alignmentScore s"
  "alignmentScore (fiducialPollTick s) = alignmentScore s"
  "alignmentScore (checkFiducials_settle snap net s) = alignmentScore s"
  by (simp_all add: checkFiducials_begin_def fiducialPollTick_def checkFiducials_settle_def
        applyFiducialResult_def Let_def split: snapshot_outcome.split sum.split)

lemma listener_score:
  "alignmentScore (accelerometerListener d s) = smooth (composite (lastAccelSampleRef s) d) (alignmentScore s)"
  by (simp add: accelerometerListener_def)

lemma score_step: "alignmentScore (step e s) = alignmentScore (handle e s)"
  by (simp add: step_def Let_def)

lemma handle_in_unit:
  assumes "in_unit (alignmentScore s)" "finite_event e"
  shows "in_unit (alignmentScore (handle e s))"
proof (cases e)
  case (AccelerometerUpdate i d)
  with assms(2) have "finite_sample d" by (simp add: finite_event_def)
  then have "in_unit (alignmentScore (accelerometerListener d s))"
    by (simp add: listener_score smooth_in_unit composite_finite assms(1))
  then show ?thesis
    unfolding AccelerometerUpdate handle_def event.case
    by (simp add: assms(1) split: option.split closure.split prod.split)
next
  case (IntervalFires i now)
  show ?thesis
    unfolding IntervalFires handle_def event.case
    by (simp add: assms(1) score_countdown score_check split: option.split closure.split prod.split)
next
  case MonitoringEffect
  then show ?thesis
    using score_monitoring [of s] assms(1) by (auto simp: handle_def)
qed (simp_all add: handle_def assms(1) score_open score_close score_toggle score_take score_effect
       score_check score_photo)

lemma run_in_unit:
  "in_unit (alignmentScore s) \<Longrightarrow> list_all finite_event es \<Longrightarrow> in_unit (alignmentScore (run es s))"
  by (induction es arbitrary: s) (simp_all add: score_step handle_in_unit)








section \<open>Evaluating example sessions\<close>

lemmas eval_defs = step_def handle_def initial_def
  handleOpenCamera_def handleCloseCamera_def handleTakePhoto_def handleTakePhoto_finally_def
  handleTakePhoto_resolved_def handleTakePhoto_rejected_def handleTakePhoto_processed_def
  toggleAutoCapture_def monitoringReset_def monitoringBody_def monitoringEffect_def
  countdownTick_def autoCaptureEffect_def fiducialPollTick_def checkFiducials_begin_def
  checkFiducials_settle_def applyFiducialResult_def stopAlignmentMonitoring_def
  clearAutoCaptureTimer_def setInterval_def clearInterval_def Let_def
  bothConditionsMet_def fiducialsOk_def stabilityOk_def statusMessage_def
  AUTO_CAPTURE_START_THRESHOLD_def AUTO_CAPTURE_START_MS_def MIN_FIDUCIALS_FOR_CAPTURE_def
  FIDUCIAL_CHECK_INTERVAL_MS_def validateFiducials_def sentinel_def accelerometerListener_def
  composite_def deriveAlignmentScore_def computeJitterPenalty_def smooth_def MAX_ACCEL_DELTA_def
  session_ready_def example_result_def level_def

lemma session_ready_state:
  "run session_ready initial =
     initial\<lparr>cameraVisible := True, cameraReady := True, cameraRef := True,
       alignmentScore := Fin 0.6975, alignmentStatus := HoldSteady,
       fiducialCount := 4, fiducialQuality := 0.9, fiducialReady := True,
       accelerometerSubscriptionRef := Some 3, fiducialCheckIntervalRef := Some 4,
       lastAccelSampleRef := Some level,
       callbacks := [(3, MotionListener, 150), (4, FiducialPoll, 450)], nextId := 5,
       monitoringCleanup := True\<rparr>"
  by (simp add: eval_defs)

lemma run_append: "run (es @ es') s = run es' (run es s)"
  by (induction es arbitrary: s) simp_all

lemma session_arming_state:
  "run session_arming initial =
     initial\<lparr>cameraVisible := True, cameraReady := True, cameraRef := True,
       alignmentScore := Fin 0.6975, alignmentStatus := CapturingSoon,
       autoCaptureCountdown := 1200,
       fiducialCount := 4, fiducialQuality := 0.9, fiducialReady := True,
       accelerometerSubscriptionRef := Some 3, fiducialCheckIntervalRef := Some 4,
       autoCaptureTimerRef := Some 5,
       lastAccelSampleRef := Some level,
       callbacks := [(3, MotionListener, 150), (4, FiducialPoll, 450), (5, Countdown 900, 120)],
       nextId := 6, monitoringCleanup := True\<rparr>"
  unfolding session_arming_def run_append session_ready_state
  by (simp add: eval_defs)

section \<open>Where countdowns come from\<close>

lemma arming_condition_iff:
  "cameraVisible s \<Longrightarrow> spec_armingCondition s = (usable s \<and> \<not> autoCaptureLockRef s \<and> bothConditionsMet s)"
  by (auto simp: spec_armingCondition_def usable_def bothConditionsMet_def fiducialsOk_def
        stabilityOk_def MIN_FIDUCIALS_FOR_CAPTURE_def AUTO_CAPTURE_START_THRESHOLD_def)

lemma timer_clear: "autoCaptureTimerRef (clearAutoCaptureTimer p s) = None"
  by (simp add: clearAutoCaptureTimer_eq)

lemma effect_idle_timer:
  assumes "autoCaptureTimerRef s = None" "\<not> (usable s \<and> \<not> autoCaptureLockRef s \<and> bothConditionsMet s)"
  shows "autoCaptureTimerRef (autoCaptureEffect now s) = None"
proof (cases s rule: effect_cases)
  case unusable
  then have "\<exists>v. autoCaptureEffect now s = clearAutoCaptureTimer False (s\<lparr>alignmentStatus := v\<rparr>)"
    using effect_unusable [of s now] unfolding usable_def by blast
  then show ?thesis by (auto simp: timer_clear)
next
  case locked
  then show ?thesis by (simp add: effect_locked assms)
next
  case start
  with assms show ?thesis by simp
next
  case cancel
  with assms show ?thesis by simp
next
  case idle
  then show ?thesis by (simp add: effect_idle)
next
  case keep
  with assms show ?thesis by simp
qed

lemma callbacks_clear:
  "set (callbacks (clearAutoCaptureTimer p s)) \<subseteq> set (callbacks s)"
  by (auto simp: clearAutoCaptureTimer_eq)

lemma callbacks_close: "set (callbacks (handleCloseCamera s)) \<subseteq> set (callbacks s)"
  by (auto simp: handleCloseCamera_eq)

lemma callbacks_reset: "set (callbacks (monitoringReset s)) \<subseteq> set (callbacks s)"
  by (auto simp: monitoringReset_eq)

lemma countdowns_mono:
  "set (callbacks t) \<subseteq> set (callbacks s) \<Longrightarrow> set (countdowns t) \<subseteq> set (countdowns s)"
  by (auto simp: countdowns_def)

lemma countdowns_body: "set (countdowns (monitoringBody s)) \<subseteq> set (countdowns s)"
proof (cases "cameraVisible s")
  case True
  then show ?thesis by (simp add: monitoringBody_def setInterval_def countdowns_def)
next
  case False
  then show ?thesis
    using callbacks_reset [of s] by (auto simp: monitoringBody_def countdowns_def)
qed

lemma countdowns_monitoring: "set (countdowns (monitoringEffect s)) \<subseteq> set (countdowns s)"
proof (cases "monitoringCleanup s")
  case True
  have "set (countdowns (monitoringBody (monitoringReset s))) \<subseteq> set (countdowns (monitoringReset s))"
    by (rule countdowns_body)
  also have "\<dots> \<subseteq> set (countdowns s)" by (rule countdowns_mono [OF callbacks_reset])
  finally show ?thesis using True by (simp add: monitoringEffect_def)
next
  case False
  then show ?thesis by (simp add: monitoringEffect_def countdowns_body)
qed

lemma callbacks_take: "set (callbacks (handleTakePhoto a s)) \<subseteq> set (callbacks s)"
  using callbacks_clear [of False s] by (simp add: handleTakePhoto_def Let_def)

lemma callbacks_finally: "set (callbacks (handleTakePhoto_finally s)) \<subseteq> set (callbacks s)"
  using callbacks_clear [of False "s\<lparr>autoCaptureLockRef := False\<rparr>"]
  by (simp add: handleTakePhoto_finally_def)

lemma callbacks_open: "set (callbacks (handleOpenCamera g s)) \<subseteq> set (callbacks s)"
  using callbacks_clear [of False "s\<lparr>cameraError := []\<rparr>"]
  by (simp add: handleOpenCamera_def Let_def)

lemma callbacks_toggle: "set (callbacks (toggleAutoCapture s)) \<subseteq> set (callbacks s)"
  using callbacks_clear [of False s] by (simp add: toggleAutoCapture_def Let_def)

lemma callbacks_photo:
  "set (callbacks (handleTakePhoto_resolved s)) \<subseteq> set (callbacks s)"
  "set (callbacks (handleTakePhoto_rejected m s)) \<subseteq> set (callbacks s)"
  "set (callbacks (handleTakePhoto_processed s)) \<subseteq> set (callbacks s)"
proof -
  show "set (callbacks (handleTakePhoto_resolved s)) \<subseteq> set (callbacks s)"
    using callbacks_close [of s] by (simp add: handleTakePhoto_resolved_def Let_def)
  have "set (callbacks (handleTakePhoto_finally (handleCloseCamera (s\<lparr>cameraError := e\<rparr>))))
          \<subseteq> set (callbacks s)" for e
    using callbacks_finally [of "handleCloseCamera (s\<lparr>cameraError := e\<rparr>)"]
      callbacks_close [of "s\<lparr>cameraError := e\<rparr>"] by simp
  then show "set (callbacks (handleTakePhoto_rejected m s)) \<subseteq> set (callbacks s)"
    by (simp add: handleTakePhoto_rejected_def Let_def)
  show "set (callbacks (handleTakePhoto_processed s)) \<subseteq> set (callbacks s)"
    using callbacks_finally [of s] by (simp add: handleTakePhoto_processed_def Let_def)
qed

lemma callbacks_countdownTick: "set (callbacks (countdownTick st now s)) \<subseteq> set (callbacks s)"
proof -
  have "set (callbacks (handleTakePhoto True
          ((clearAutoCaptureTimer True (s\<lparr>autoCaptureCountdown := r\<rparr>))
             \<lparr>autoCaptureLockRef := True, autoCaptureFired := n\<rparr>))) \<subseteq> set (callbacks s)" for r n
    using callbacks_take [of True "(clearAutoCaptureTimer True (s\<lparr>autoCaptureCountdown := r\<rparr>))
             \<lparr>autoCaptureLockRef := True, autoCaptureFired := n\<rparr>"]
      callbacks_clear [of True "s\<lparr>autoCaptureCountdown := r\<rparr>"] by simp
  then show ?thesis by (simp add: countdownTick_def Let_def)
qed

lemma callbacks_check:
  "callbacks (checkFiducials_begin s) = callbacks s"
  "callbacks (fiducialPollTick s) = callbacks s"
  "callbacks (checkFiducials_settle snap net s) = callbacks s"
  "callbacks (accelerometerListener d s) = callbacks s"
  by (simp_all add: checkFiducials_begin_def fiducialPollTick_def checkFiducials_settle_def
        applyFiducialResult_def accelerometerListener_def Let_def
        split: snapshot_outcome.split sum.split)

lemma countdowns_step: "countdowns (step e s) = countdowns (handle e s)"
  by (simp add: step_def Let_def countdowns_def)

lemma countdowns_effect_unarmed:
  assumes "\<not> (usable s \<and> \<not> autoCaptureLockRef s \<and> bothConditionsMet s \<and> autoCaptureTimerRef s = None)"
  shows "set (callbacks (autoCaptureEffect now s)) \<subseteq> set (callbacks s)"
proof (cases s rule: effect_cases)
  case unusable
  then have "\<exists>v. autoCaptureEffect now s = clearAutoCaptureTimer False (s\<lparr>alignmentStatus := v\<rparr>)"
    using effect_unusable [of s now] unfolding usable_def by blast
  then obtain v where "autoCaptureEffect now s = clearAutoCaptureTimer False (s\<lparr>alignmentStatus := v\<rparr>)" ..
  then show ?thesis using callbacks_clear [of False "s\<lparr>alignmentStatus := v\<rparr>"] by simp
next
  case locked
  then show ?thesis by (simp add: effect_locked)
next
  case start
  with assms show ?thesis by simp
next
  case cancel
  then show ?thesis using callbacks_clear [of False s] by (simp add: effect_cancel)
next
  case idle
  then show ?thesis by (simp add: effect_idle)
next
  case keep
  then show ?thesis by (simp add: effect_keep)
qed

lemma no_new_countdown:
  assumes "\<not> set (countdowns (step e s)) \<subseteq> set (countdowns s)"
  shows "case e of AutoCaptureEffect now \<Rightarrow>
           usable s \<and> \<not> autoCaptureLockRef s \<and> bothConditionsMet s \<and> autoCaptureTimerRef s = None
         | _ \<Rightarrow> False"
proof (cases e)
  case (AutoCaptureEffect now)
  show ?thesis
  proof (rule ccontr)
    assume "\<not> ?thesis"
    then have "set (callbacks (autoCaptureEffect now s)) \<subseteq> set (callbacks s)"
      unfolding AutoCaptureEffect event.case by (rule countdowns_effect_unarmed)
    then have "set (countdowns (handle e s)) \<subseteq> set (countdowns s)"
      unfolding AutoCaptureEffect by (simp add: handle_def countdowns_mono)
    with assms show False by (simp add: countdowns_step)
  qed
next
  case (IntervalFires i now)
  have "set (callbacks (handle e s)) \<subseteq> set (callbacks s)"
    unfolding IntervalFires handle_def event.case
    by (simp add: callbacks_countdownTick callbacks_check split: option.split closure.split prod.split)
  with assms show ?thesis by (simp add: countdowns_step countdowns_mono)
next
  case (AccelerometerUpdate i d)
  have "set (callbacks (handle e s)) \<subseteq> set (callbacks s)"
    unfolding AccelerometerUpdate handle_def event.case
    by (simp add: callbacks_check split: option.split closure.split prod.split)
  with assms show ?thesis by (simp add: countdowns_step countdowns_mono)
next
  case MonitoringEffect
  with assms show ?thesis by (simp add: countdowns_step handle_def countdowns_monitoring)
next
  case (OpenCamera g)
  with assms show ?thesis by (simp add: countdowns_step handle_def countdowns_mono callbacks_open)
next
  case CloseCamera
  with assms show ?thesis by (simp add: countdowns_step handle_def countdowns_mono callbacks_close)
next
  case CameraReady
  have "set (callbacks (handle e s)) \<subseteq> set (callbacks s)"
    unfolding CameraReady by (simp add: handle_def)
  with assms show ?thesis by (simp add: countdowns_step countdowns_mono)
next
  case ToggleAutoCapture
  with assms show ?thesis by (simp add: countdowns_step handle_def countdowns_mono callbacks_toggle)
next
  case PressCapture
  with assms show ?thesis by (simp add: countdowns_step handle_def countdowns_mono callbacks_take)
next
  case (CheckSettles snap net)
  have "set (callbacks (handle e s)) \<subseteq> set (callbacks s)"
    unfolding CheckSettles by (simp add: handle_def callbacks_check)
  with assms show ?thesis by (simp add: countdowns_step countdowns_mono)
next
  case PhotoResolved
  with assms show ?thesis by (simp add: countdowns_step handle_def countdowns_mono callbacks_photo)
next
  case (PhotoRejected m)
  with assms show ?thesis by (simp add: countdowns_step handle_def countdowns_mono callbacks_photo)
next
  case PhotoProcessed
  with assms show ?thesis by (simp add: countdowns_step handle_def countdowns_mono callbacks_photo)
qed

section \<open>Handles stay distinct\<close>

lemma shrinks_refl: "callbacks t = callbacks s \<Longrightarrow> nextId t = nextId s \<Longrightarrow> shrinks s t"
  unfolding shrinks_def by (auto intro: exI [of _ "\<lambda>p. True"])

lemma shrinks_trans: "shrinks s t \<Longrightarrow> shrinks t u \<Longrightarrow> shrinks s u"
proof -
  assume "shrinks s t" "shrinks t u"
  then obtain P Q where "callbacks t = filter P (callbacks s)" "callbacks u = filter Q (callbacks t)"
    and n: "nextId u = nextId s" by (auto simp: shrinks_def)
  then have "callbacks u = filter (\<lambda>x. P x \<and> Q x) (callbacks s)" by simp
  with n show ?thesis unfolding shrinks_def by blast
qed

lemma shrinks_filter: "callbacks t = filter P (callbacks s) \<Longrightarrow> nextId t = nextId s \<Longrightarrow> shrinks s t"
  unfolding shrinks_def by blast

lemma shrinks_fresh: "shrinks s t \<Longrightarrow> fresh s \<Longrightarrow> fresh t"
  unfolding shrinks_def fresh_def by (auto simp: distinct_map_filter list_all_iff)

lemma shrinks_clear: "shrinks s (clearAutoCaptureTimer p s)"
  by (rule shrinks_filter) (simp_all add: clearAutoCaptureTimer_eq)

lemma shrinks_close: "shrinks s (handleCloseCamera s)"
  by (rule shrinks_filter) (simp_all add: handleCloseCamera_eq)

lemma shrinks_reset: "shrinks s (monitoringReset s)"
  by (rule shrinks_filter) (simp_all add: monitoringReset_eq)

lemma shrinks_take: "shrinks s (handleTakePhoto a s)"
proof -
  have "shrinks s ((clearAutoCaptureTimer False s)\<lparr>capturesInFlight := n\<rparr>)" for n
    using shrinks_clear [of s False] by (simp add: shrinks_def)
  moreover have "shrinks s (s\<lparr>capturesInFlight := n\<rparr>)" for n by (simp add: shrinks_refl)
  moreover have "shrinks s (s\<lparr>cameraError := m\<rparr>)" for m by (simp add: shrinks_refl)
  ultimately show ?thesis by (simp add: handleTakePhoto_def Let_def shrinks_refl)
qed

lemma shrinks_finally: "shrinks s (handleTakePhoto_finally s)"
  using shrinks_clear [of "s\<lparr>autoCaptureLockRef := False\<rparr>" False]
  by (simp add: handleTakePhoto_finally_def shrinks_def)

lemma shrinks_open: "shrinks s (handleOpenCamera g s)"
  using shrinks_clear [of "s\<lparr>cameraError := []\<rparr>" False]
  by (simp add: handleOpenCamera_def Let_def shrinks_def)

lemma shrinks_field:
  "shrinks s t \<Longrightarrow> callbacks u = callbacks t \<Longrightarrow> nextId u = nextId t \<Longrightarrow> shrinks s u"
  by (simp add: shrinks_def)

lemma shrinks_toggle: "shrinks s (toggleAutoCapture s)"
proof (cases "autoCaptureEnabled s")
  case True
  then show ?thesis
    by (intro shrinks_field [OF shrinks_clear [of s False]]) (simp_all add: toggleAutoCapture_def)
next
  case False
  then show ?thesis by (intro shrinks_refl) (simp_all add: toggleAutoCapture_def)
qed

lemma shrinks_resolved: "shrinks s (handleTakePhoto_resolved s)"
  by (rule shrinks_field [OF shrinks_close]) (simp_all add: handleTakePhoto_resolved_def Let_def)

lemma shrinks_rejected: "shrinks s (handleTakePhoto_rejected m s)"
proof -
  have "shrinks s (s\<lparr>cameraError := e\<rparr>)" for e by (simp add: shrinks_refl)
  then have "shrinks s (handleTakePhoto_finally (handleCloseCamera (s\<lparr>cameraError := e\<rparr>)))" for e
    by (blast intro: shrinks_trans shrinks_close shrinks_finally)
  then show ?thesis
    by (rule shrinks_field) (simp_all add: handleTakePhoto_rejected_def Let_def)
qed

lemma shrinks_processed: "shrinks s (handleTakePhoto_processed s)"
  by (rule shrinks_field [OF shrinks_finally]) (simp_all add: handleTakePhoto_processed_def Let_def)

lemma shrinks_countdownTick: "shrinks s (countdownTick st now s)"
proof -
  have a: "shrinks s (s\<lparr>autoCaptureCountdown := r\<rparr>)" for r by (simp add: shrinks_refl)
  have "shrinks s ((clearAutoCaptureTimer True (s\<lparr>autoCaptureCountdown := r\<rparr>))
             \<lparr>autoCaptureLockRef := True, autoCaptureFired := n\<rparr>)" for r n
    by (rule shrinks_field [OF shrinks_trans [OF a shrinks_clear]]) simp_all
  then have "shrinks s (handleTakePhoto True ((clearAutoCaptureTimer True (s\<lparr>autoCaptureCountdown := r\<rparr>))
             \<lparr>autoCaptureLockRef := True, autoCaptureFired := n\<rparr>))" for r n
    by (blast intro: shrinks_trans shrinks_take)
  with a show ?thesis by (simp add: countdownTick_def Let_def)
qed

lemma shrinks_check:
  "shrinks s (checkFiducials_begin s)"
  "shrinks s (fiducialPollTick s)"
  "shrinks s (checkFiducials_settle snap net s)"
  "shrinks s (accelerometerListener d s)"
  by (rule shrinks_refl;
      simp add: checkFiducials_begin_def fiducialPollTick_def checkFiducials_settle_def
        applyFiducialResult_def accelerometerListener_def Let_def
        split: snapshot_outcome.split sum.split)+

lemma fresh_setInterval:
  "fresh s \<Longrightarrow> fresh (snd (setInterval c ms s))"
  by (auto simp: fresh_def setInterval_def list_all_iff less_Suc_eq)

lemma fresh_cong: "callbacks t = callbacks s \<Longrightarrow> nextId t = nextId s \<Longrightarrow> fresh t = fresh s"
  by (simp add: fresh_def)

lemma fresh_body: "fresh s \<Longrightarrow> fresh (monitoringBody s)"
proof (cases "cameraVisible s")
  case True
  assume f: "fresh s"
  have "fresh (monitoringBody s)
          = fresh (snd (setInterval FiducialPoll FIDUCIAL_CHECK_INTERVAL_MS
                     (snd (setInterval MotionListener 150 s))))"
    using True by (intro fresh_cong) (simp_all add: monitoringBody_def setInterval_def)
  then show ?thesis by (simp add: fresh_setInterval f)
next
  case False
  assume f: "fresh s"
  have "fresh ((monitoringReset s)\<lparr>monitoringCleanup := False\<rparr>) = fresh (monitoringReset s)"
    by (rule fresh_cong) simp_all
  with False show ?thesis
    by (simp add: monitoringBody_def shrinks_fresh [OF shrinks_reset f])
qed

lemma fresh_monitoring: "fresh s \<Longrightarrow> fresh (monitoringEffect s)"
  by (simp add: monitoringEffect_def fresh_body shrinks_fresh [OF shrinks_reset])

lemma fresh_effect: "fresh s \<Longrightarrow> fresh (autoCaptureEffect now s)"
proof (cases s rule: effect_cases)
  case unusable
  assume f: "fresh s"
  from unusable obtain v where "autoCaptureEffect now s = clearAutoCaptureTimer False (s\<lparr>alignmentStatus := v\<rparr>)"
    using effect_unusable [of s now] unfolding usable_def by blast
  moreover have "fresh (s\<lparr>alignmentStatus := v\<rparr>)" using f by (simp add: fresh_def)
  ultimately show ?thesis by (simp add: shrinks_fresh [OF shrinks_clear])
next
  case locked
  assume "fresh s"
  with locked show ?thesis by (simp add: effect_locked fresh_def)
next
  case start
  assume "fresh s"
  with start show ?thesis by (auto simp: effect_start fresh_def list_all_iff less_Suc_eq)
next
  case cancel
  assume f: "fresh s"
  have "fresh ((clearAutoCaptureTimer False s)\<lparr>alignmentStatus := v\<rparr>) = fresh (clearAutoCaptureTimer False s)" for v
    by (rule fresh_cong) simp_all
  with cancel show ?thesis by (simp add: effect_cancel shrinks_fresh [OF shrinks_clear f])
next
  case idle
  assume "fresh s"
  with idle show ?thesis by (simp add: effect_idle fresh_def)
next
  case keep
  assume "fresh s"
  with keep show ?thesis by (simp add: effect_keep fresh_def)
qed

lemma fresh_handle: "fresh s \<Longrightarrow> fresh (handle e s)"
proof (cases e)
  case (IntervalFires i now)
  assume f: "fresh s"
  have "shrinks s (handle e s)"
    unfolding IntervalFires handle_def event.case
    by (simp add: shrinks_countdownTick shrinks_check shrinks_refl
          split: option.split closure.split prod.split)
  then show ?thesis by (rule shrinks_fresh [OF _ f])
next
  case (AccelerometerUpdate i d)
  assume f: "fresh s"
  have "shrinks s (handle e s)"
    unfolding AccelerometerUpdate handle_def event.case
    by (simp add: shrinks_check shrinks_refl split: option.split closure.split prod.split)
  then show ?thesis by (rule shrinks_fresh [OF _ f])
next
  case MonitoringEffect
  assume "fresh s"
  with MonitoringEffect show ?thesis by (simp add: handle_def fresh_monitoring)
next
  case (AutoCaptureEffect now)
  assume "fresh s"
  with AutoCaptureEffect show ?thesis by (simp add: handle_def fresh_effect)
next
  case CameraReady
  assume "fresh s"
  with CameraReady show ?thesis by (simp add: handle_def fresh_def)
next
  case (OpenCamera g)
  assume "fresh s"
  with OpenCamera show ?thesis by (simp add: handle_def shrinks_fresh [OF shrinks_open])
next
  case CloseCamera
  assume "fresh s"
  with CloseCamera show ?thesis by (simp add: handle_def shrinks_fresh [OF shrinks_close])
next
  case ToggleAutoCapture
  assume "fresh s"
  with ToggleAutoCapture show ?thesis by (simp add: handle_def shrinks_fresh [OF shrinks_toggle])
next
  case PressCapture
  assume "fresh s"
  with PressCapture show ?thesis by (simp add: handle_def shrinks_fresh [OF shrinks_take])
next
  case (CheckSettles snap net)
  assume "fresh s"
  with CheckSettles show ?thesis by (simp add: handle_def shrinks_fresh [OF shrinks_check(3)])
next
  case PhotoResolved
  assume "fresh s"
  with PhotoResolved show ?thesis by (simp add: handle_def shrinks_fresh [OF shrinks_resolved])
next
  case (PhotoRejected m)
  assume "fresh s"
  with PhotoRejected show ?thesis by (simp add: handle_def shrinks_fresh [OF shrinks_rejected])
next
  case PhotoProcessed
  assume "fresh s"
  with PhotoProcessed show ?thesis by (simp add: handle_def shrinks_fresh [OF shrinks_processed])
qed

lemma fresh_step: "fresh s \<Longrightarrow> fresh (step e s)"
proof -
  assume "fresh s"
  then have "fresh (handle e s)" by (rule fresh_handle)
  moreover have "fresh (t\<lparr>cameraRef := b\<rparr>) = fresh t" for t b by (rule fresh_cong) simp_all
  ultimately show ?thesis by (simp add: step_def Let_def)
qed

lemma fresh_run: "fresh s \<Longrightarrow> fresh (run es s)"
  by (induction es arbitrary: s) (simp_all add: fresh_step)

lemma fresh_reachable: "fresh (run es initial)"
  by (rule fresh_run) (simp add: fresh_def initial_def)

lemma one_countdown:
  assumes "owned s" "fresh s"
  shows "length (countdowns s) \<le> 1"
proof -
  have d: "distinct (map fst (countdowns s))"
    using assms(2) by (simp add: fresh_def countdowns_def distinct_map_filter)
  have "\<forall>p \<in> set (countdowns s). Some (fst p) = autoCaptureTimerRef s"
  proof
    fix p assume p: "p \<in> set (countdowns s)"
    obtain i c ms where q: "p = (i, c, ms)" by (cases p)
    with p obtain st where "c = Countdown st" by (cases c) (auto simp: countdowns_def)
    moreover from p q assms(1) have "owner (autoCaptureTimerRef s) (fiducialCheckIntervalRef s)
        (accelerometerSubscriptionRef s) c = Some i"
      by (auto simp: owned_def owned_at_iff countdowns_def)
    ultimately show "Some (fst p) = autoCaptureTimerRef s" by (simp add: q owner_def)
  qed
  then have e: "\<forall>x \<in> set (map fst (countdowns s)). Some x = autoCaptureTimerRef s"
    by auto
  have "length (map fst (countdowns s)) \<le> 1"
  proof (cases "map fst (countdowns s)")
    case Nil
    then show ?thesis by simp
  next
    case (Cons x xs)
    show ?thesis
    proof (cases xs)
      case Nil
      with Cons show ?thesis by simp
    next
      case (Cons y ys)
      with \<open>map fst (countdowns s) = x # xs\<close> e have "Some x = autoCaptureTimerRef s" "Some y = autoCaptureTimerRef s"
        by simp_all
      then have "Some x = Some y" by (rule trans [OF _ sym])
      then have "x = y" by simp
      with d \<open>map fst (countdowns s) = x # xs\<close> Cons show ?thesis by simp
    qed
  qed
  then show ?thesis by simp
qed

section \<open>After the countdown has fired\<close>

lemma owned_member:
  assumes "screen_inv s" "(i, c, ms) \<in> set (callbacks s)"
  shows "owner (autoCaptureTimerRef s) (fiducialCheckIntervalRef s)
           (accelerometerSubscriptionRef s) c = Some i"
proof -
  from assms(1) have "owned_at (callbacks s) (autoCaptureTimerRef s) (fiducialCheckIntervalRef s)
           (accelerometerSubscriptionRef s)"
    by (simp add: screen_inv_def inv0_def owned_def)
  with assms(2) show ?thesis unfolding owned_at_iff by blast
qed

lemma registered_countdown:
  assumes "screen_inv s" "map_of (callbacks s) i = Some (Countdown started, ms)"
  shows "autoCaptureTimerRef s = Some i" "usable s" "\<not> autoCaptureLockRef s" "cameraRef s"
proof -
  from assms(2) have "(i, Countdown started, ms) \<in> set (callbacks s)" by (rule map_of_SomeD)
  from owned_member [OF assms(1) this] show t: "autoCaptureTimerRef s = Some i"
    by (simp add: owner_def)
  with assms(1) show "usable s" "\<not> autoCaptureLockRef s" "cameraRef s"
    by (simp_all add: screen_inv_def inv0_def usable_def)
qed

lemma no_countdown_without_timer:
  assumes "screen_inv s" "autoCaptureTimerRef s = None"
  shows "countdowns s = []"
proof -
  have "\<not> isCountdown p" if "p \<in> set (callbacks s)" for p
  proof -
    obtain i c ms where q: "p = (i, c, ms)" by (cases p)
    with that have "(i, c, ms) \<in> set (callbacks s)" by simp
    from owned_member [OF assms(1) this] assms(2) show ?thesis
      unfolding q by (cases c) (simp_all add: owner_def)
  qed
  then show ?thesis by (simp add: countdowns_def filter_empty_conv)
qed

lemma tick_fires:
  assumes "screen_inv s" "map_of (callbacks s) i = Some (Countdown started, ms)"
    "AUTO_CAPTURE_START_MS \<le> now - started"
  shows "handle (IntervalFires i now) s =
           handleTakePhoto True
             ((clearAutoCaptureTimer True (s\<lparr>autoCaptureCountdown := 0\<rparr>))
                \<lparr>autoCaptureLockRef := True, autoCaptureFired := Suc (autoCaptureFired s)\<rparr>)"
  using assms(2,3) by (simp add: handle_def countdownTick_def Let_def clearAutoCaptureTimer_eq)

lemma tick_fires_fields:
  assumes "screen_inv s" "map_of (callbacks s) i = Some (Countdown started, ms)"
    "AUTO_CAPTURE_START_MS \<le> now - started"
  shows "autoCaptureFired (step (IntervalFires i now) s) = Suc (autoCaptureFired s)"
    "capturesInFlight (step (IntervalFires i now) s) = Suc (capturesInFlight s)"
    "autoCaptureTimerRef (step (IntervalFires i now) s) = None"
    "autoCaptureLockRef (step (IntervalFires i now) s)"
    "usable (step (IntervalFires i now) s)"
    "autoCaptureCountdown (step (IntervalFires i now) s) = 0"
    "checksInFlight (step (IntervalFires i now) s) = checksInFlight s"
  using registered_countdown [OF assms(1,2)]
  by (simp_all add: step_def Let_def tick_fires [OF assms] handleTakePhoto_def
        clearAutoCaptureTimer_eq usable_def)

lemma firing_signal:
  assumes "screen_inv t" "firing t" "signal e"
  shows "firing (step e t) \<and> autoCaptureFired (step e t) = autoCaptureFired t \<and>
         capturesInFlight (step e t) = capturesInFlight t \<and>
         checksInFlight (step e t) \<le> checksInFlight t"
proof (cases e)
  case (AutoCaptureEffect now)
  with assms(2) show ?thesis
    by (simp add: step_def handle_def Let_def firing_def effect_locked usable_def)
next
  case (IntervalFires i now)
  have "map_of (callbacks t) i \<noteq> Some (Countdown st, ms)" for st ms
    using registered_countdown(1) [OF assms(1), of i st ms] assms(2) by (auto simp: firing_def)
  then have "handle e t = t"
    using assms(2) unfolding IntervalFires handle_def event.case
    by (auto simp: firing_def fiducialPollTick_def split: option.split closure.split prod.split)
  with assms(2) show ?thesis by (simp add: step_def Let_def firing_def usable_def)
next
  case (AccelerometerUpdate i d)
  with assms(2) show ?thesis
    by (simp add: step_def handle_def Let_def firing_def usable_def accelerometerListener_def
          split: option.split closure.split prod.split)
next
  case (CheckSettles snap net)
  with assms(2) show ?thesis
    by (simp add: step_def handle_def Let_def firing_def usable_def checkFiducials_settle_def
          applyFiducialResult_def split: snapshot_outcome.split sum.split)
qed (use assms(3) in simp_all)

lemma firing_run:
  "screen_inv t \<Longrightarrow> firing t \<Longrightarrow> list_all signal es \<Longrightarrow>
     firing (run es t) \<and> autoCaptureFired (run es t) = autoCaptureFired t \<and>
     capturesInFlight (run es t) = capturesInFlight t \<and>
     checksInFlight (run es t) \<le> checksInFlight t"
proof (induction es arbitrary: t)
  case Nil
  then show ?case by simp
next
  case (Cons e es)
  from Cons.prems have s: "signal e" "list_all signal es" by simp_all
  note f = firing_signal [OF Cons.prems(1,2) s(1)]
  from Cons.IH [OF inv_step [OF Cons.prems(1), of e] conjunct1 [OF f] s(2)] f
  show ?case by auto
qed

section \<open>Checks in flight\<close>

lemma quiet_refl:
  "checksInFlight t = checksInFlight s \<Longrightarrow>
   fiducialCheckInProgressRef t = fiducialCheckInProgressRef s \<Longrightarrow>
   fiducialCheckIntervalRef t = fiducialCheckIntervalRef s \<Longrightarrow> quiet s t"
  by (simp add: quiet_def)

lemma quiet_trans: "quiet s t \<Longrightarrow> quiet t u \<Longrightarrow> quiet s u"
  by (auto simp: quiet_def)

lemma quiet_throttled: "quiet s t \<Longrightarrow> throttled s \<Longrightarrow> throttled t"
  by (auto simp: quiet_def throttled_def)

lemma quiet_clear: "quiet s (clearAutoCaptureTimer p s)"
  by (simp add: quiet_def clearAutoCaptureTimer_eq)

lemma quiet_close: "quiet s (handleCloseCamera s)"
  by (simp add: quiet_def handleCloseCamera_eq)

lemma quiet_take: "quiet s (handleTakePhoto a s)"
proof -
  have "quiet s ((clearAutoCaptureTimer False s)\<lparr>capturesInFlight := n\<rparr>)" for n
    using quiet_clear [of s False] by (simp add: quiet_def)
  then show ?thesis by (simp add: handleTakePhoto_def Let_def quiet_refl)
qed

lemma quiet_finally: "quiet s (handleTakePhoto_finally s)"
  using quiet_clear [of "s\<lparr>autoCaptureLockRef := False\<rparr>" False]
  by (simp add: handleTakePhoto_finally_def quiet_def)

lemma quiet_open: "quiet s (handleOpenCamera g s)"
  using quiet_clear [of "s\<lparr>cameraError := []\<rparr>" False]
  by (simp add: handleOpenCamera_def Let_def quiet_def)

lemma quiet_toggle: "quiet s (toggleAutoCapture s)"
  using quiet_clear [of s False] by (simp add: toggleAutoCapture_def Let_def quiet_def)

lemma quiet_resolved: "quiet s (handleTakePhoto_resolved s)"
  using quiet_close [of s] by (simp add: handleTakePhoto_resolved_def Let_def quiet_def)

lemma quiet_rejected: "quiet s (handleTakePhoto_rejected m s)"
proof -
  have "quiet s (s\<lparr>cameraError := e\<rparr>)" for e by (simp add: quiet_refl)
  then have "quiet s (handleTakePhoto_finally (handleCloseCamera (s\<lparr>cameraError := e\<rparr>)))" for e
    by (blast intro: quiet_trans quiet_close quiet_finally)
  then show ?thesis by (simp add: handleTakePhoto_rejected_def Let_def quiet_def)
qed

lemma quiet_processed: "quiet s (handleTakePhoto_processed s)"
  using quiet_finally [of s] by (simp add: handleTakePhoto_processed_def Let_def quiet_def)

lemma quiet_countdownTick: "quiet s (countdownTick st now s)"
proof -
  have a: "quiet s (s\<lparr>autoCaptureCountdown := r\<rparr>)" for r by (simp add: quiet_refl)
  have "quiet s ((clearAutoCaptureTimer True (s\<lparr>autoCaptureCountdown := r\<rparr>))
             \<lparr>autoCaptureLockRef := True, autoCaptureFired := n\<rparr>)" for r n
    using quiet_clear [of "s\<lparr>autoCaptureCountdown := r\<rparr>" True] by (simp add: quiet_def)
  then have "quiet s (handleTakePhoto True ((clearAutoCaptureTimer True (s\<lparr>autoCaptureCountdown := r\<rparr>))
             \<lparr>autoCaptureLockRef := True, autoCaptureFired := n\<rparr>))" for r n
    by (blast intro: quiet_trans quiet_take)
  with a show ?thesis by (simp add: countdownTick_def Let_def)
qed

lemma quiet_effect: "quiet s (autoCaptureEffect now s)"
proof (cases s rule: effect_cases)
  case unusable
  then obtain v where "autoCaptureEffect now s = clearAutoCaptureTimer False (s\<lparr>alignmentStatus := v\<rparr>)"
    using effect_unusable [of s now] unfolding usable_def by blast
  then show ?thesis using quiet_clear [of "s\<lparr>alignmentStatus := v\<rparr>" False] by (simp add: quiet_def)
next
  case cancel
  then show ?thesis using quiet_clear [of s False] by (simp add: effect_cancel quiet_def)
qed (simp_all add: effect_locked effect_start effect_idle effect_keep quiet_def)

lemma throttled_begin:
  assumes "throttled s" "fiducialCheckIntervalRef s \<noteq> None"
  shows "throttled (checkFiducials_begin s)"
  using assms by (auto simp: throttled_def checkFiducials_begin_def)

lemma throttled_settle: "throttled s \<Longrightarrow> throttled (checkFiducials_settle snap net s)"
  by (auto simp: throttled_def checkFiducials_settle_def applyFiducialResult_def Let_def
        split: snapshot_outcome.split sum.split)

lemma throttled_handle:
  assumes "screen_inv s" "throttled s" "\<not> isMonitoringEffect e"
  shows "throttled (handle e s)"
proof (cases e)
  case (IntervalFires i now)
  show ?thesis
  proof (cases "map_of (callbacks s) i")
    case None
    with assms(2) show ?thesis by (simp add: IntervalFires handle_def)
  next
    case (Some a)
    obtain c ms where a: "a = (c, ms)" by (cases a)
    from Some a have m: "(i, c, ms) \<in> set (callbacks s)" by (auto dest: map_of_SomeD)
    show ?thesis
    proof (cases c)
      case (Countdown st)
      with Some a assms(2) show ?thesis
        by (simp add: IntervalFires handle_def quiet_throttled [OF quiet_countdownTick])
    next
      case FiducialPoll
      with owned_member [OF assms(1) m] have "fiducialCheckIntervalRef s \<noteq> None"
        by (simp add: owner_def)
      with Some a FiducialPoll assms(2) show ?thesis
        by (simp add: IntervalFires handle_def fiducialPollTick_def throttled_begin)
    next
      case MotionListener
      with Some a assms(2) show ?thesis by (simp add: IntervalFires handle_def)
    qed
  qed
next
  case (AccelerometerUpdate i d)
  have "quiet s (accelerometerListener d s)" by (simp add: quiet_def accelerometerListener_def)
  with assms(2) show ?thesis
    unfolding AccelerometerUpdate handle_def event.case
    by (auto intro: quiet_throttled split: option.split closure.split prod.split)
next
  case MonitoringEffect
  with assms(3) show ?thesis by simp
next
  case (AutoCaptureEffect now)
  with assms(2) show ?thesis by (simp add: handle_def quiet_throttled [OF quiet_effect])
next
  case CameraReady
  with assms(2) show ?thesis by (simp add: handle_def throttled_def)
next
  case (OpenCamera g)
  with assms(2) show ?thesis by (simp add: handle_def quiet_throttled [OF quiet_open])
next
  case CloseCamera
  with assms(2) show ?thesis by (simp add: handle_def quiet_throttled [OF quiet_close])
next
  case ToggleAutoCapture
  with assms(2) show ?thesis by (simp add: handle_def quiet_throttled [OF quiet_toggle])
next
  case PressCapture
  with assms(2) show ?thesis by (simp add: handle_def quiet_throttled [OF quiet_take])
next
  case (CheckSettles snap net)
  with assms(2) show ?thesis by (simp add: handle_def throttled_settle)
next
  case PhotoResolved
  with assms(2) show ?thesis by (simp add: handle_def quiet_throttled [OF quiet_resolved])
next
  case (PhotoRejected m)
  with assms(2) show ?thesis by (simp add: handle_def quiet_throttled [OF quiet_rejected])
next
  case PhotoProcessed
  with assms(2) show ?thesis by (simp add: handle_def quiet_throttled [OF quiet_processed])
qed

lemma throttled_step:
  assumes "screen_inv s" "throttled s" "\<not> isMonitoringEffect e"
  shows "throttled (step e s)"
  using throttled_handle [OF assms] by (simp add: step_def Let_def throttled_def)

lemma throttled_run:
  "screen_inv s \<Longrightarrow> throttled s \<Longrightarrow> list_all (\<lambda>e. \<not> isMonitoringEffect e) es \<Longrightarrow> throttled (run es s)"
proof (induction es arbitrary: s)
  case Nil
  then show ?case by simp
next
  case (Cons e es)
  then show ?case by (simp add: inv_step throttled_step)
qed

section \<open>The score under the rounded listener\<close>

lemma listener_fp_exact: "accelerometerListener_fp Fin d s = accelerometerListener d s"
  by (simp add: accelerometerListener_fp_def accelerometerListener_def smooth_fp_exact
        composite_fp_exact)

lemma handle_fp_exact: "handle_fp Fin e s = handle e s"
  by (cases e)
    (simp_all add: handle_fp_def handle_def listener_fp_exact
       split: option.split prod.split closure.split)

lemma run_fp_exact: "run_fp Fin es s = run es s"
  by (induction es arbitrary: s) (simp_all add: step_fp_def step_def handle_fp_exact)

lemma handle_fp_in_unit:
  assumes "in_unit (alignmentScore s)" "finite_event e"
  shows "in_unit (alignmentScore (handle_fp binary64 e s))"
proof (cases e)
  case (AccelerometerUpdate i d)
  with assms(2) have "finite_sample d" by (simp add: finite_event_def)
  then have "in_unit (alignmentScore (accelerometerListener_fp binary64 d s))"
    by (simp add: accelerometerListener_fp_def smooth_fp_in_unit composite_fp_finite assms(1))
  then show ?thesis
    unfolding AccelerometerUpdate handle_fp_def event.case
    by (simp add: assms(1) split: option.split closure.split prod.split)
qed (use handle_in_unit [OF assms] in \<open>simp_all add: handle_fp_def\<close>)

lemma run_fp_in_unit:
  "in_unit (alignmentScore s) \<Longrightarrow> list_all finite_event es \<Longrightarrow>
     in_unit (alignmentScore (run_fp binary64 es s))"
  by (induction es arbitrary: s) (simp_all add: step_fp_def Let_def handle_fp_in_unit)

section \<open>While the camera is closed\<close>

lemma step_close_eq:
  assumes "screen_inv s"
  shows "step CloseCamera s =
           initial\<lparr>autoCaptureEnabled := autoCaptureEnabled s, cameraError := cameraError s,
             nextId := nextId s, monitoringCleanup := monitoringCleanup s,
             checksInFlight := checksInFlight s, capturesInFlight := capturesInFlight s,
             processingInFlight := processingInFlight s, autoCaptureFired := autoCaptureFired s\<rparr>"
proof -
  have "owned_at (callbacks s) (autoCaptureTimerRef s) (fiducialCheckIntervalRef s)
               (accelerometerSubscriptionRef s)"
    using assms by (simp add: screen_inv_def inv0_def owned_def)
  then have c: "filter (\<lambda>q. keep (accelerometerSubscriptionRef s) q \<and>
                  keep (fiducialCheckIntervalRef s) q \<and> keep (autoCaptureTimerRef s) q) (callbacks s) = []"
    by (rule owned_at_clear_all)
  show ?thesis
    by (cases s) (use c in \<open>simp add: step_def handle_def Let_def handleCloseCamera_eq initial_def\<close>)
qed

lemma closed_clean_step:
  assumes "closed_clean s" "\<not> isGrantedOpen e"
  shows "closed_clean (step e s)"
  using assms
  by (cases s; cases e)
    (simp_all add: closed_clean_def readiness_def eval_defs split: option.split)

lemma closed_clean_run:
  "closed_clean s \<Longrightarrow> list_all (\<lambda>e. \<not> isGrantedOpen e) es \<Longrightarrow> closed_clean (run es s)"
  by (induction es arbitrary: s) (simp_all add: closed_clean_step)

lemma closed_clean_reopen:
  assumes "closed_clean s"
  shows "readiness (step (OpenCamera True) s) = readiness (step (OpenCamera True) initial)"
  using assms by (cases s) (simp add: closed_clean_def readiness_def eval_defs)

lemma settle_stores_result:
  assumes "0 < checksInFlight s" "uri \<noteq> []"
  shows "fiducials (step (CheckSettles (Snapshot (Some uri)) (Response True (Some r))) s) = reported r"
  using assms
  by (simp add: step_def handle_def checkFiducials_settle_def validateFiducials_def
        applyFiducialResult_def fiducials_def reported_def Let_def)

lemma open_keeps_fiducials: "fiducials (step (OpenCamera g) s) = fiducials s"
  by (simp add: fiducials_def step_def handle_def handleOpenCamera_def Let_def
        clearAutoCaptureTimer_eq)

lemma effect_keeps_fiducials: "fiducials (step (AutoCaptureEffect now) s) = fiducials s"
  by (simp add: fiducials_def step_def handle_def autoCaptureEffect_def Let_def setInterval_def
        clearAutoCaptureTimer_eq)

lemma effects_keep_fiducials:
  "list_all isAutoCaptureEffect es \<Longrightarrow> fiducials (run es s) = fiducials s"
proof (induction es arbitrary: s)
  case Nil
  then show ?case by simp
next
  case (Cons e es)
  then obtain now where "e = AutoCaptureEffect now" by (cases e) simp_all
  then show ?case using Cons by (simp add: effect_keeps_fiducials)
qed

section \<open>The smoothed alignment score\<close>

text \<open>
  Claim C4.  In double precision, as the program computes: whatever events happen in
  whatever order, as long as every motion sample has finite components (the zero vector
  and vectors of any size included, also those whose squares are beyond the doubles), the
  smoothed alignment score is a number between 0 and 1 after each of them, from the
  initial screen on.  For such a sample the composite is between 0 and 1.  When the old
  score is a number between 0 and 1, the update stores the double that JavaScript
  computes for old * 0.55 + composite * 0.45: it is between 0 and 1, and it differs from
  the real number old * 0.55 + composite * 0.45 by at most \<open>2 ^ -51\<close>.
\<close>

theorem alignmentScore_in_unit_interval_binary64:
  "(list_all finite_event es \<longrightarrow> in_unit (alignmentScore (run_fp binary64 (take n es) initial)))
   \<and> (finite_sample d \<longrightarrow> in_unit (composite_fp binary64 (lastAccelSampleRef s) d))
   \<and> (finite_sample d \<and> alignmentScore s = Fin old \<and> 0 \<le> old \<and> old \<le> 1 \<longrightarrow>
        (\<exists>c r. composite_fp binary64 (lastAccelSampleRef s) d = Fin c \<and> 0 \<le> c \<and> c \<le> 1 \<and>
               alignmentScore (accelerometerListener_fp binary64 d s) = Fin r \<and>
               fadd binary64 (fmul binary64 (Fin old) (binary64 0.55))
                 (fmul binary64 (Fin c) (binary64 0.45)) = Fin r \<and>
               0 \<le> r \<and> r \<le> 1 \<and> \<bar>r - (old * 0.55 + c * 0.45)\<bar> \<le> 2 powi (- 51)))"
proof (intro conjI impI)
  assume "list_all finite_event es"
  then have "list_all finite_event (take n es)"
    by (auto simp: list_all_iff dest: in_set_takeD)
  moreover have "in_unit (alignmentScore initial)" by (simp add: initial_def)
  ultimately show "in_unit (alignmentScore (run_fp binary64 (take n es) initial))"
    by (rule run_fp_in_unit [rotated])
next
  assume "finite_sample d"
  then show "in_unit (composite_fp binary64 (lastAccelSampleRef s) d)"
    by (rule composite_fp_finite)
next
  assume a: "finite_sample d \<and> alignmentScore s = Fin old \<and> 0 \<le> old \<and> old \<le> 1"
  then obtain c where c: "composite_fp binary64 (lastAccelSampleRef s) d = Fin c" "0 \<le> c" "c \<le> 1"
    using composite_fp_finite [of d "lastAccelSampleRef s"] by (auto simp: in_unit_iff)
  from a have old: "0 \<le> old" "old \<le> 1" by simp_all
  obtain r where r: "smooth_fp binary64 (Fin c) (Fin old) = Fin r" "0 \<le> r" "r \<le> 1"
      "\<bar>r - (old * 0.55 + c * 0.45)\<bar> \<le> 2 powi (- 51)"
    using smooth_fp_blend [OF c(2,3) old] by blast
  have l: "alignmentScore (accelerometerListener_fp binary64 d s) = Fin r"
    using a by (simp add: accelerometerListener_fp_def c(1) r(1))
  have e: "fadd binary64 (fmul binary64 (Fin old) (binary64 0.55))
             (fmul binary64 (Fin c) (binary64 0.45)) = Fin r"
    using r(1) unfolding smooth_fp_def by simp
  show "\<exists>c r. composite_fp binary64 (lastAccelSampleRef s) d = Fin c \<and> 0 \<le> c \<and> c \<le> 1 \<and>
               alignmentScore (accelerometerListener_fp binary64 d s) = Fin r \<and>
               fadd binary64 (fmul binary64 (Fin old) (binary64 0.55))
                 (fmul binary64 (Fin c) (binary64 0.45)) = Fin r \<and>
               0 \<le> r \<and> r \<le> 1 \<and> \<bar>r - (old * 0.55 + c * 0.45)\<bar> \<le> 2 powi (- 51)"
    using c l e r(2,3,4) by blast
qed

text \<open>
  An instance: a session whose listener receives the zero vector and then a vector of
  length \<open>10 ^ 200\<close>.  The square of that length overflows to infinity, the raw score of
  the vector is the double 0.19999999999999996, and the score stays between 0 and 1.
\<close>

theorem alignmentScore_in_unit_interval_binary64_witness:
  "list_all finite_event session_huge
   \<and> lastAccelSampleRef (run_fp binary64 session_huge initial) = Some huge_vector
   \<and> fmul binary64 (sample_z huge_vector) (sample_z huge_vector) = PInf
   \<and> deriveAlignmentScore_fp binary64 huge_vector = Fin (1801439850948198 / 2 ^ 53)
   \<and> in_unit (alignmentScore (run_fp binary64 (take 4 session_huge) initial))
   \<and> finite_sample huge_vector
   \<and> in_unit (composite_fp binary64 (lastAccelSampleRef initial) huge_vector)
   \<and> alignmentScore initial = Fin 0
   \<and> (\<exists>c r. composite_fp binary64 (lastAccelSampleRef initial) huge_vector = Fin c \<and> 0 \<le> c \<and> c \<le> 1 \<and>
            alignmentScore (accelerometerListener_fp binary64 huge_vector initial) = Fin r \<and>
            0 \<le> r \<and> r \<le> 1 \<and> \<bar>r - c * 0.45\<bar> \<le> 2 powi (- 51))"
proof -
  have f: "list_all finite_event session_huge"
    by (simp add: session_huge_def finite_event_def finite_sample_def huge_vector_def)
  have l: "lastAccelSampleRef (run_fp binary64 session_huge initial) = Some huge_vector"
    by (simp add: session_huge_def step_fp_def handle_fp_def accelerometerListener_fp_def
          handle_def initial_def handleOpenCamera_def clearAutoCaptureTimer_eq monitoringEffect_def
          monitoringBody_def setInterval_def FIDUCIAL_CHECK_INTERVAL_MS_def Let_def)
  have o: "fmul binary64 (sample_z huge_vector) (sample_z huge_vector) = PInf"
    unfolding huge_vector_def sample.simps by (rule overflow_square)
  have h: "deriveAlignmentScore_fp binary64 huge_vector = Fin (1801439850948198 / 2 ^ 53)"
    unfolding huge_vector_def by (rule derive_fp_huge)
  have d: "finite_sample huge_vector" by (simp add: finite_sample_def huge_vector_def)
  have i: "alignmentScore initial = Fin 0" by (simp add: initial_def)
  note w = alignmentScore_in_unit_interval_binary64 [of session_huge 4 huge_vector initial 0]
  have w1: "in_unit (alignmentScore (run_fp binary64 (take 4 session_huge) initial))"
    using w f by blast
  have w2: "in_unit (composite_fp binary64 (lastAccelSampleRef initial) huge_vector)"
    using w d by blast
  have w3: "\<exists>c r. composite_fp binary64 (lastAccelSampleRef initial) huge_vector = Fin c \<and> 0 \<le> c \<and> c \<le> 1 \<and>
            alignmentScore (accelerometerListener_fp binary64 huge_vector initial) = Fin r \<and>
            0 \<le> r \<and> r \<le> 1 \<and> \<bar>r - c * 0.45\<bar> \<le> 2 powi (- 51)"
    using w d i by auto
  show ?thesis using f l o h w1 d w2 i w3 by blast
qed

text \<open>
  Claim C5, as stated, says that a sample with a NaN or infinite component is skipped
  and leaves the score as it was.  The listener has no such check: on the initial
  screen, whose score is 0, the sample (NaN, 0, 1) changes the score.
\<close>

theorem garbage_sample_not_rejected_counterexample:
  "alignmentScore (accelerometerListener \<lparr>sample_x = NaN, sample_y = Fin 0, sample_z = Fin 1\<rparr> initial)
     \<noteq> alignmentScore initial"
  by (simp add: accelerometerListener_def composite_def deriveAlignmentScore_def
        computeJitterPenalty_def smooth_def initial_def)

text \<open>
  Claim C5, amended.  A sample with a NaN or infinite component is not rejected: the
  update runs, the score becomes NaN, whatever it was, and the sample is stored as the
  last one.  The test \<^verbatim>\<open>Number.isFinite(prev)\<close> of the updater then repairs the score at
  the next sample with finite components: the score becomes that sample's composite,
  not a blend, and lies between 0 and 1.
\<close>

theorem garbage_sample_makes_score_NaN:
  "\<not> finite_sample d \<longrightarrow>
     alignmentScore (accelerometerListener d s) = NaN \<and>
     lastAccelSampleRef (accelerometerListener d s) = Some d \<and>
     (finite_sample d' \<longrightarrow>
        alignmentScore (accelerometerListener d' (accelerometerListener d s)) = composite (Some d) d' \<and>
        in_unit (alignmentScore (accelerometerListener d' (accelerometerListener d s))))"
proof (intro impI conjI)
  assume g: "\<not> finite_sample d"
  show n: "alignmentScore (accelerometerListener d s) = NaN"
    by (simp add: listener_score composite_garbage [OF g] smooth_NaN)
  show l: "lastAccelSampleRef (accelerometerListener d s) = Some d"
    by (simp add: accelerometerListener_def)
  assume f: "finite_sample d'"
  show e: "alignmentScore (accelerometerListener d' (accelerometerListener d s)) = composite (Some d) d'"
    by (simp add: listener_score [of d'] n l smooth_def)
  show "in_unit (alignmentScore (accelerometerListener d' (accelerometerListener d s)))"
    unfolding e by (rule composite_finite [OF f])
qed

text \<open>
  An instance: a sample with an infinite component on the initial screen, followed by
  the level sample.  The jitter against the infinite sample is 1, so the composite of
  the level sample is 1 - 0.45.
\<close>

theorem garbage_sample_makes_score_NaN_witness:
  "\<not> finite_sample \<lparr>sample_x = Fin 0, sample_y = PInf, sample_z = Fin 1\<rparr> \<and>
   alignmentScore (accelerometerListener \<lparr>sample_x = Fin 0, sample_y = PInf, sample_z = Fin 1\<rparr> initial) = NaN \<and>
   finite_sample \<lparr>sample_x = Fin 0, sample_y = Fin 0, sample_z = Fin 1\<rparr> \<and>
   alignmentScore (accelerometerListener \<lparr>sample_x = Fin 0, sample_y = Fin 0, sample_z = Fin 1\<rparr>
      (accelerometerListener \<lparr>sample_x = Fin 0, sample_y = PInf, sample_z = Fin 1\<rparr> initial)) = Fin 0.55"
  using garbage_sample_makes_score_NaN
    [of "\<lparr>sample_x = Fin 0, sample_y = PInf, sample_z = Fin 1\<rparr>" initial
        "\<lparr>sample_x = Fin 0, sample_y = Fin 0, sample_z = Fin 1\<rparr>"]
  by (simp add: finite_sample_def composite_def deriveAlignmentScore_def computeJitterPenalty_def
        MAX_ACCEL_DELTA_def)




section \<open>Arming, cancelling and firing\<close>

text \<open>
  Claim C1.  On any screen the event system can reach and that has no countdown, the
  auto-capture effect starts the countdown if and only if the camera is ready, auto
  capture is enabled, the lock is not held, at least 4 fiducials were found, the
  service reported ready, and the alignment score is at least 0.55.  When it starts it,
  the remaining time is set to 1200 ms and a countdown callback with period 120 ms is
  registered under a new handle, stored in the timer ref.  No event registers a countdown
  otherwise: a step after which a countdown is registered that was not registered before
  is a run of the auto-capture effect on such a screen under that condition.  While
  less than 1200 ms have gone by, a run of the countdown callback only stores the
  remaining time, 1200 minus the time since the start.
\<close>

theorem arming_entry:
  "(s = run es initial \<and> autoCaptureTimerRef s = None \<longrightarrow>
      (autoCaptureTimerRef (step (AutoCaptureEffect now) s) \<noteq> None) = spec_armingCondition s \<and>
      (spec_armingCondition s \<longrightarrow>
         autoCaptureTimerRef (step (AutoCaptureEffect now) s) = Some (nextId s) \<and>
         callbacks (step (AutoCaptureEffect now) s) = callbacks s @ [(nextId s, Countdown now, 120)] \<and>
         autoCaptureCountdown (step (AutoCaptureEffect now) s) = 1200))
   \<and> (\<not> set (countdowns (step e s)) \<subseteq> set (countdowns s) \<longrightarrow>
        (case e of AutoCaptureEffect now' \<Rightarrow>
                     cameraVisible s \<and> spec_armingCondition s \<and> autoCaptureTimerRef s = None
                 | _ \<Rightarrow> False))
   \<and> (map_of (callbacks s) i = Some (Countdown started, ms) \<and> t - started < 1200 \<longrightarrow>
        autoCaptureCountdown (step (IntervalFires i t) s) = 1200 - (t - started) \<and>
        callbacks (step (IntervalFires i t) s) = callbacks s \<and>
        autoCaptureFired (step (IntervalFires i t) s) = autoCaptureFired s)"
proof (intro conjI impI)
  assume r: "s = run es initial \<and> autoCaptureTimerRef s = None"
  then have "s = run es initial" by blast
  then have "screen_inv s" by (simp add: inv_reachable)
  then have v: "cameraReady s \<longrightarrow> cameraVisible s" by (auto simp: screen_inv_def inv0_def)
  have n: "autoCaptureTimerRef s = None" using r by blast
  show "(autoCaptureTimerRef (step (AutoCaptureEffect now) s) \<noteq> None) = spec_armingCondition s"
  proof (cases "spec_armingCondition s")
    case True
    with v have "cameraVisible s" by (simp add: spec_armingCondition_def)
    with True have "usable s" "\<not> autoCaptureLockRef s" "bothConditionsMet s"
      by (simp_all add: arming_condition_iff)
    with n True show ?thesis by (simp add: step_def handle_def Let_def effect_start)
  next
    case False
    have "\<not> (usable s \<and> \<not> autoCaptureLockRef s \<and> bothConditionsMet s)"
    proof
      assume u: "usable s \<and> \<not> autoCaptureLockRef s \<and> bothConditionsMet s"
      then have "cameraVisible s" by (simp add: usable_def)
      with u False show False by (simp add: arming_condition_iff)
    qed
    with n have "autoCaptureTimerRef (autoCaptureEffect now s) = None"
      by (intro effect_idle_timer) simp_all
    with False show ?thesis by (simp add: step_def handle_def Let_def)
  qed
  assume c: "spec_armingCondition s"
  with v have "cameraVisible s" by (simp add: spec_armingCondition_def)
  with c have u: "usable s" "\<not> autoCaptureLockRef s" "bothConditionsMet s"
    by (simp_all add: arming_condition_iff)
  with n show "autoCaptureTimerRef (step (AutoCaptureEffect now) s) = Some (nextId s)"
    "callbacks (step (AutoCaptureEffect now) s) = callbacks s @ [(nextId s, Countdown now, 120)]"
    "autoCaptureCountdown (step (AutoCaptureEffect now) s) = 1200"
    by (simp_all add: step_def handle_def Let_def effect_start AUTO_CAPTURE_START_MS_def)
next
  assume n: "\<not> set (countdowns (step e s)) \<subseteq> set (countdowns s)"
  show "case e of AutoCaptureEffect now' \<Rightarrow>
                     cameraVisible s \<and> spec_armingCondition s \<and> autoCaptureTimerRef s = None
                 | _ \<Rightarrow> False"
    using no_new_countdown [OF n]
    by (cases e) (auto simp: arming_condition_iff usable_def)
next
  assume t: "map_of (callbacks s) i = Some (Countdown started, ms) \<and> t - started < 1200"
  then have h: "handle (IntervalFires i t) s = s\<lparr>autoCaptureCountdown := 1200 - (t - started)\<rparr>"
    by (simp add: handle_def countdownTick_def AUTO_CAPTURE_START_MS_def Let_def max_def)
  show "autoCaptureCountdown (step (IntervalFires i t) s) = 1200 - (t - started)"
    "callbacks (step (IntervalFires i t) s) = callbacks s"
    "autoCaptureFired (step (IntervalFires i t) s) = autoCaptureFired s"
    by (simp_all add: step_def Let_def h)
qed

text \<open>
  An instance: the ready session, with four corners and score 0.6975.  The effect at
  time 900 registers the countdown under handle 5; its callback at time 1020 stores
  1080.
\<close>

theorem arming_entry_witness:
  "cameraVisible (run session_ready initial) \<and> autoCaptureTimerRef (run session_ready initial) = None \<and>
   spec_armingCondition (run session_ready initial) \<and>
   autoCaptureTimerRef (step (AutoCaptureEffect 900) (run session_ready initial)) = Some 5 \<and>
   autoCaptureCountdown (step (AutoCaptureEffect 900) (run session_ready initial)) = 1200 \<and>
   map_of (callbacks (step (AutoCaptureEffect 900) (run session_ready initial))) 5
     = Some (Countdown 900, 120) \<and>
   autoCaptureCountdown
     (step (IntervalFires 5 1020) (step (AutoCaptureEffect 900) (run session_ready initial))) = 1080 \<and>
   \<not> set (countdowns (step (AutoCaptureEffect 900) (run session_ready initial)))
       \<subseteq> set (countdowns (run session_ready initial))"
proof -
  have st: "spec_armingCondition (run session_ready initial)"
    unfolding session_ready_state by (simp add: spec_armingCondition_def initial_def)
  have a: "cameraVisible (run session_ready initial) \<and> autoCaptureTimerRef (run session_ready initial) = None"
    unfolding session_ready_state by (simp add: initial_def)
  have n: "nextId (run session_ready initial) = 5"
    "callbacks (run session_ready initial) = [(3, MotionListener, 150), (4, FiducialPoll, 450)]"
    by (simp_all add: session_ready_state)
  note w = arming_entry [of "run session_ready initial" session_ready 900 "AutoCaptureEffect 900"]
  have e: "autoCaptureTimerRef (step (AutoCaptureEffect 900) (run session_ready initial)) = Some 5"
    "autoCaptureCountdown (step (AutoCaptureEffect 900) (run session_ready initial)) = 1200"
    "callbacks (step (AutoCaptureEffect 900) (run session_ready initial))
       = [(3, MotionListener, 150), (4, FiducialPoll, 450), (5, Countdown 900, 120)]"
    using w a st n by simp_all
  have m: "map_of (callbacks (step (AutoCaptureEffect 900) (run session_ready initial))) 5
     = Some (Countdown 900, 120)"
    by (simp add: e)
  have t: "autoCaptureCountdown
     (step (IntervalFires 5 1020) (step (AutoCaptureEffect 900) (run session_ready initial))) = 1080"
    using arming_entry [of "step (AutoCaptureEffect 900) (run session_ready initial)" _ _ _ 5 900 120 1020] m
    by simp
  have c: "\<not> set (countdowns (step (AutoCaptureEffect 900) (run session_ready initial)))
       \<subseteq> set (countdowns (run session_ready initial))"
    by (simp add: countdowns_def e n)
  show ?thesis using st a e m t c by simp
qed

text \<open>
  Claim C2.  Take any screen the event system can reach, a countdown callback
  registered in it, and a moment at which its 1200 ms are over.  When the callback
  runs, \<^verbatim>\<open>handleTakePhoto(true)\<close> is called once, on a screen whose countdown has been
  cleared and whose lock is held, and one capture is started.  From then on, whatever
  signals arrive (runs of the auto-capture effect, timer callbacks, motion samples,
  ends of fiducial checks), the lock stays held, no countdown is registered, no
  fiducial check begins and \<^verbatim>\<open>handleTakePhoto(true)\<close> is not called again.  On any
  locked screen the fiducial check and the polling callback return at once.  And a
  reachable screen never has more than one countdown registered, however many
  qualifying events arrived while arming.
\<close>

theorem single_capture_per_arm_cycle:
  "(map_of (callbacks (run es initial)) i = Some (Countdown started, ms) \<and> 1200 \<le> now - started \<longrightarrow>
      autoCaptureFired (step (IntervalFires i now) (run es initial))
        = Suc (autoCaptureFired (run es initial)) \<and>
      capturesInFlight (step (IntervalFires i now) (run es initial))
        = Suc (capturesInFlight (run es initial)) \<and>
      (\<exists>s3. autoCaptureTimerRef s3 = None \<and> countdowns s3 = [] \<and> autoCaptureLockRef s3 \<and>
            handle (IntervalFires i now) (run es initial) = handleTakePhoto True s3) \<and>
      autoCaptureTimerRef (step (IntervalFires i now) (run es initial)) = None \<and>
      countdowns (step (IntervalFires i now) (run es initial)) = [] \<and>
      autoCaptureLockRef (step (IntervalFires i now) (run es initial)) \<and>
      (list_all signal es' \<longrightarrow>
         autoCaptureFired (run es' (step (IntervalFires i now) (run es initial)))
           = Suc (autoCaptureFired (run es initial)) \<and>
         capturesInFlight (run es' (step (IntervalFires i now) (run es initial)))
           = Suc (capturesInFlight (run es initial)) \<and>
         autoCaptureLockRef (run es' (step (IntervalFires i now) (run es initial))) \<and>
         countdowns (run es' (step (IntervalFires i now) (run es initial))) = [] \<and>
         checksInFlight (run es' (step (IntervalFires i now) (run es initial)))
           \<le> checksInFlight (run es initial)))
   \<and> (autoCaptureLockRef t \<longrightarrow> checkFiducials_begin t = t \<and> fiducialPollTick t = t)
   \<and> length (countdowns (run es initial)) \<le> 1"
proof (intro conjI impI)
  define s where "s = run es initial"
  have i: "screen_inv s" unfolding s_def by (rule inv_reachable)
  assume "map_of (callbacks (run es initial)) i = Some (Countdown started, ms) \<and> 1200 \<le> now - started"
  then have m: "map_of (callbacks s) i = Some (Countdown started, ms)"
    and d: "AUTO_CAPTURE_START_MS \<le> now - started"
    by (simp_all add: s_def AUTO_CAPTURE_START_MS_def)
  note f = tick_fires_fields [OF i m d]
  have i': "screen_inv (step (IntervalFires i now) s)" by (rule inv_step [OF i])
  have fi: "firing (step (IntervalFires i now) s)" using f by (simp add: firing_def)
  show "autoCaptureFired (step (IntervalFires i now) (run es initial))
        = Suc (autoCaptureFired (run es initial))"
    "capturesInFlight (step (IntervalFires i now) (run es initial))
        = Suc (capturesInFlight (run es initial))"
    "autoCaptureTimerRef (step (IntervalFires i now) (run es initial)) = None"
    "autoCaptureLockRef (step (IntervalFires i now) (run es initial))"
    using f unfolding s_def by simp_all
  show "countdowns (step (IntervalFires i now) (run es initial)) = []"
    using no_countdown_without_timer [OF i' f(3)] unfolding s_def .
  show "\<exists>s3. autoCaptureTimerRef s3 = None \<and> countdowns s3 = [] \<and> autoCaptureLockRef s3 \<and>
            handle (IntervalFires i now) (run es initial) = handleTakePhoto True s3"
  proof (intro exI conjI)
    let ?s3 = "(clearAutoCaptureTimer True (s\<lparr>autoCaptureCountdown := 0\<rparr>))
                \<lparr>autoCaptureLockRef := True, autoCaptureFired := Suc (autoCaptureFired s)\<rparr>"
    show "handle (IntervalFires i now) (run es initial) = handleTakePhoto True ?s3"
      using tick_fires [OF i m d] unfolding s_def .
    show "autoCaptureTimerRef ?s3 = None" "autoCaptureLockRef ?s3"
      by (simp_all add: clearAutoCaptureTimer_eq)
    have "inv0 ?s3" using i by (intro inv0_lock_after_clear) (simp add: screen_inv_def)
    moreover have "autoCaptureTimerRef ?s3 = None" by (simp add: clearAutoCaptureTimer_eq)
    ultimately have "countdowns (?s3\<lparr>cameraRef := cameraVisible ?s3\<rparr>) = []"
      by (intro no_countdown_without_timer) (simp_all add: screen_inv_def inv0_def owned_def)
    then show "countdowns ?s3 = []" by (simp add: countdowns_def)
  qed
  assume "list_all signal es'"
  note r = firing_run [OF i' fi this]
  show "autoCaptureFired (run es' (step (IntervalFires i now) (run es initial)))
           = Suc (autoCaptureFired (run es initial))"
    "capturesInFlight (run es' (step (IntervalFires i now) (run es initial)))
           = Suc (capturesInFlight (run es initial))"
    "autoCaptureLockRef (run es' (step (IntervalFires i now) (run es initial)))"
    "checksInFlight (run es' (step (IntervalFires i now) (run es initial)))
           \<le> checksInFlight (run es initial)"
    using r f unfolding s_def by (simp_all add: firing_def)
  show "countdowns (run es' (step (IntervalFires i now) (run es initial))) = []"
    using r inv_run [OF i', of es'] unfolding s_def
    by (intro no_countdown_without_timer) (simp_all add: firing_def)
next
  assume "autoCaptureLockRef t"
  then show "checkFiducials_begin t = t" "fiducialPollTick t = t"
    by (simp_all add: checkFiducials_begin_def fiducialPollTick_def)
next
  show "length (countdowns (run es initial)) \<le> 1"
    using inv_reachable [of es] fresh_reachable [of es]
    by (intro one_countdown) (simp_all add: screen_inv_def inv0_def)
qed

text \<open>
  An instance: the arming session, whose countdown started at 900, with the callback
  at 2100 and six signals after it, among them the cleared countdown and polling
  handles and a run of the effect.
\<close>

theorem single_capture_per_arm_cycle_witness:
  "map_of (callbacks (run session_arming initial)) 5 = Some (Countdown 900, 120) \<and>
   (1200::int) \<le> 2100 - 900 \<and>
   autoCaptureFired (step (IntervalFires 5 2100) (run session_arming initial)) = 1 \<and>
   list_all signal [AutoCaptureEffect 2110, IntervalFires 5 2220, IntervalFires 4 2250,
     AccelerometerUpdate 3 level, AutoCaptureEffect 2300, IntervalFires 5 2340] \<and>
   autoCaptureFired (run [AutoCaptureEffect 2110, IntervalFires 5 2220, IntervalFires 4 2250,
     AccelerometerUpdate 3 level, AutoCaptureEffect 2300, IntervalFires 5 2340]
       (step (IntervalFires 5 2100) (run session_arming initial))) = 1"
proof -
  have m: "map_of (callbacks (run session_arming initial)) 5 = Some (Countdown 900, 120)"
    by (simp add: session_arming_state)
  have z: "autoCaptureFired (run session_arming initial) = 0"
    unfolding session_arming_state by (simp add: initial_def)
  have l: "list_all signal [AutoCaptureEffect 2110, IntervalFires 5 2220, IntervalFires 4 2250,
     AccelerometerUpdate 3 level, AutoCaptureEffect 2300, IntervalFires 5 2340]"
    by simp
  show ?thesis
    using single_capture_per_arm_cycle [of session_arming 5 900 120 2100
       "[AutoCaptureEffect 2110, IntervalFires 5 2220, IntervalFires 4 2250,
         AccelerometerUpdate 3 level, AutoCaptureEffect 2300, IntervalFires 5 2340]"] m z l
    by simp
qed

text \<open>
  Claim C3.  Take any reachable screen with a countdown running and let the
  auto-capture effect run.  If fewer than 4 fiducials are found, or the service does not
  report ready, or the alignment score is below 0.55, the countdown is cleared, no
  countdown callback stays registered and the remaining time is 0; otherwise the
  countdown, the callbacks and the remaining time are left as they are.  So the effect
  cancels exactly when the condition of arm entry fails; in particular a score of at
  least \<^verbatim>\<open>AUTO_CAPTURE_CANCEL_THRESHOLD\<close> = 0.35 but below the start threshold cancels.
\<close>

theorem cancel_reuses_entry_condition:
  assumes "s = run es initial" and "autoCaptureTimerRef s \<noteq> None"
    and "s' = step (AutoCaptureEffect now) s"
  shows "(\<not> (fiducialCount s \<ge> 4 \<and> fiducialReady s \<and> js_ge (alignmentScore s) (Fin 0.55)) \<longrightarrow>
            autoCaptureTimerRef s' = None \<and> countdowns s' = [] \<and> autoCaptureCountdown s' = 0)
       \<and> (fiducialCount s \<ge> 4 \<and> fiducialReady s \<and> js_ge (alignmentScore s) (Fin 0.55) \<longrightarrow>
            autoCaptureTimerRef s' = autoCaptureTimerRef s \<and> callbacks s' = callbacks s \<and>
            autoCaptureCountdown s' = autoCaptureCountdown s)
       \<and> (autoCaptureTimerRef s' = None) = (\<not> spec_armingCondition s)
       \<and> (js_ge (alignmentScore s) AUTO_CAPTURE_CANCEL_THRESHOLD \<and>
            \<not> js_ge (alignmentScore s) AUTO_CAPTURE_START_THRESHOLD \<longrightarrow>
            autoCaptureTimerRef s' = None)"
proof -
  have i: "screen_inv s" unfolding assms(1) by (rule inv_reachable)
  with assms(2) have u: "usable s" "\<not> autoCaptureLockRef s" "cameraVisible s"
    by (auto simp: screen_inv_def inv0_def usable_def)
  have b: "bothConditionsMet s
             = (fiducialCount s \<ge> 4 \<and> fiducialReady s \<and> js_ge (alignmentScore s) (Fin 0.55))"
    by (simp add: bothConditionsMet_def fiducialsOk_def stabilityOk_def
          MIN_FIDUCIALS_FOR_CAPTURE_def AUTO_CAPTURE_START_THRESHOLD_def)
  have a: "spec_armingCondition s = bothConditionsMet s"
    using u by (simp add: arming_condition_iff)
  have i': "screen_inv s'" unfolding assms(3) by (rule inv_step [OF i])
  have cancel: "autoCaptureTimerRef s' = None \<and> countdowns s' = [] \<and> autoCaptureCountdown s' = 0"
    if "\<not> bothConditionsMet s"
  proof -
    have "s' = (let s1 = (clearAutoCaptureTimer False s)\<lparr>alignmentStatus := statusMessage s\<rparr>
                in s1\<lparr>cameraRef := cameraVisible s1\<rparr>)"
      unfolding assms(3) using u that assms(2) by (simp add: step_def handle_def effect_cancel)
    then have "autoCaptureTimerRef s' = None" "autoCaptureCountdown s' = 0"
      by (simp_all add: Let_def clearAutoCaptureTimer_eq)
    with no_countdown_without_timer [OF i'] show ?thesis by simp
  qed
  have keep: "autoCaptureTimerRef s' = autoCaptureTimerRef s \<and> callbacks s' = callbacks s \<and>
            autoCaptureCountdown s' = autoCaptureCountdown s"
    if "bothConditionsMet s"
    unfolding assms(3) using u that assms(2) by (simp add: step_def handle_def Let_def effect_keep)
  have band: "\<not> bothConditionsMet s" if "\<not> js_ge (alignmentScore s) AUTO_CAPTURE_START_THRESHOLD"
    using that by (simp add: bothConditionsMet_def stabilityOk_def)
  show ?thesis
    using cancel keep band assms(2) unfolding a b [symmetric] by auto
qed

text \<open>
  Instances: during the countdown a check reports two corners, not ready, and the
  effect cancels; the zero vector lowers the score to 0.383625, between the two
  thresholds, and the effect cancels; with nothing changed the effect keeps handle 5.
\<close>

theorem cancel_reuses_entry_condition_witness:
  "autoCaptureTimerRef (run (session_arming @ [IntervalFires 4 1350,
       CheckSettles (Snapshot (Some ''snapshot.jpg'')) (Response True (Some lost_result))]) initial) \<noteq> None \<and>
   \<not> (fiducialCount (run (session_arming @ [IntervalFires 4 1350,
       CheckSettles (Snapshot (Some ''snapshot.jpg'')) (Response True (Some lost_result))]) initial) \<ge> 4) \<and>
   autoCaptureTimerRef (step (AutoCaptureEffect 1400) (run (session_arming @ [IntervalFires 4 1350,
       CheckSettles (Snapshot (Some ''snapshot.jpg'')) (Response True (Some lost_result))]) initial)) = None \<and>
   autoCaptureCountdown (step (AutoCaptureEffect 1400) (run (session_arming @ [IntervalFires 4 1350,
       CheckSettles (Snapshot (Some ''snapshot.jpg'')) (Response True (Some lost_result))]) initial)) = 0 \<and>
   autoCaptureTimerRef (run (session_arming @ [AccelerometerUpdate 3 zero_vector]) initial) \<noteq> None \<and>
   js_ge (alignmentScore (run (session_arming @ [AccelerometerUpdate 3 zero_vector]) initial))
     AUTO_CAPTURE_CANCEL_THRESHOLD \<and>
   \<not> js_ge (alignmentScore (run (session_arming @ [AccelerometerUpdate 3 zero_vector]) initial))
     AUTO_CAPTURE_START_THRESHOLD \<and>
   autoCaptureTimerRef (step (AutoCaptureEffect 1100)
     (run (session_arming @ [AccelerometerUpdate 3 zero_vector]) initial)) = None \<and>
   autoCaptureTimerRef (step (AutoCaptureEffect 1000) (run session_arming initial)) = Some 5"
proof -
  have l: "autoCaptureTimerRef (run (session_arming @ [IntervalFires 4 1350,
       CheckSettles (Snapshot (Some ''snapshot.jpg'')) (Response True (Some lost_result))]) initial) = Some 5"
    "fiducialCount (run (session_arming @ [IntervalFires 4 1350,
       CheckSettles (Snapshot (Some ''snapshot.jpg'')) (Response True (Some lost_result))]) initial) = 2"
    unfolding run_append session_arming_state by (simp_all add: eval_defs lost_result_def)
  have z: "autoCaptureTimerRef (run (session_arming @ [AccelerometerUpdate 3 zero_vector]) initial) = Some 5"
    "alignmentScore (run (session_arming @ [AccelerometerUpdate 3 zero_vector]) initial) = Fin 0.383625"
    unfolding run_append session_arming_state by (simp_all add: eval_defs zero_vector_def)
  have k: "autoCaptureTimerRef (run session_arming initial) = Some 5"
    "fiducialCount (run session_arming initial) = 4" "fiducialReady (run session_arming initial)"
    "alignmentScore (run session_arming initial) = Fin 0.6975"
    unfolding session_arming_state by simp_all
  note c1 = cancel_reuses_entry_condition [OF refl _ refl, of "session_arming @ [IntervalFires 4 1350,
       CheckSettles (Snapshot (Some ''snapshot.jpg'')) (Response True (Some lost_result))]" 1400]
  note c2 = cancel_reuses_entry_condition [OF refl _ refl, of "session_arming @ [AccelerometerUpdate 3 zero_vector]" 1100]
  note c3 = cancel_reuses_entry_condition [OF refl _ refl, of session_arming 1000]
  show ?thesis
    using c1 c2 c3 l z k
    by (simp add: AUTO_CAPTURE_CANCEL_THRESHOLD_def AUTO_CAPTURE_START_THRESHOLD_def)
qed

section \<open>Fiducial polling and the end of a session\<close>

text \<open>
  Claim C7.  With a usable asset, \<^verbatim>\<open>validateFiducials\<close> returns the sentinel
  \<^verbatim>\<open>{detected: 0, corners: {}, quality: 0, ready: false}\<close> when \<^verbatim>\<open>fetch\<close> throws and
  when the response is not ok, and \<^verbatim>\<open>checkFiducials\<close> stores it.  The claim adds that
  polling continues on the next tick.  That fails when the check was made during a
  countdown.  In \<open>arming_failure\<close> the sentinel is stored while the polling timer is
  still registered under handle 4; the auto-capture effect, which runs because the
  fiducial state changed, takes its cancel branch, and \<^verbatim>\<open>clearAutoCaptureTimer\<close> clears
  the polling timer together with the countdown.  The screen is open, ready and
  unlocked, the status says that it is looking for corner markers, only the motion
  listener is registered, and the next two ticks of the polling timer begin no check.
\<close>

theorem network_failure_while_arming_stops_polling:
  "validateFiducials (Some ''snapshot.jpg'') FetchThrows = Inr sentinel \<and>
   validateFiducials (Some ''snapshot.jpg'') (Response False None) = Inr sentinel \<and>
   checksInFlight (run (take 14 arming_failure) initial) = 1 \<and>
   fiducialCount (run (take 15 arming_failure) initial) = 0 \<and>
   fiducialQuality (run (take 15 arming_failure) initial) = 0 \<and>
   \<not> fiducialReady (run (take 15 arming_failure) initial) \<and>
   \<not> fiducialCheckInProgressRef (run (take 15 arming_failure) initial) \<and>
   map_of (callbacks (run (take 15 arming_failure) initial)) 4 = Some (FiducialPoll, 450) \<and>
   fiducialCheckIntervalRef (run arming_failure initial) = None \<and>
   callbacks (run arming_failure initial) = [(3, MotionListener, 150)] \<and>
   alignmentStatus (run arming_failure initial) = LookingForMarkers \<and>
   cameraVisible (run arming_failure initial) \<and> cameraReady (run arming_failure initial) \<and>
   \<not> autoCaptureLockRef (run arming_failure initial) \<and>
   checksInFlight (run (arming_failure @ [IntervalFires 4 1800, IntervalFires 4 2250]) initial) = 0"
proof -
  have t: "take 14 arming_failure = session_arming @ [IntervalFires 4 1350]"
    "take 15 arming_failure = session_arming @ [IntervalFires 4 1350,
        CheckSettles (Snapshot (Some ''snapshot.jpg'')) FetchThrows]"
    by (simp_all add: arming_failure_def session_arming_def session_ready_def)
  have v: "validateFiducials (Some ''snapshot.jpg'') FetchThrows = Inr sentinel"
    "validateFiducials (Some ''snapshot.jpg'') (Response False None) = Inr sentinel"
    by (simp_all add: validateFiducials_def)
  have b: "checksInFlight (run (take 14 arming_failure) initial) = 1"
    "fiducialCount (run (take 15 arming_failure) initial) = 0"
    "fiducialQuality (run (take 15 arming_failure) initial) = 0"
    "\<not> fiducialReady (run (take 15 arming_failure) initial)"
    "\<not> fiducialCheckInProgressRef (run (take 15 arming_failure) initial)"
    "map_of (callbacks (run (take 15 arming_failure) initial)) 4 = Some (FiducialPoll, 450)"
    unfolding t run_append session_arming_state by (simp_all add: eval_defs)
  have c: "fiducialCheckIntervalRef (run arming_failure initial) = None"
    "callbacks (run arming_failure initial) = [(3, MotionListener, 150)]"
    "alignmentStatus (run arming_failure initial) = LookingForMarkers"
    "cameraVisible (run arming_failure initial)" "cameraReady (run arming_failure initial)"
    "\<not> autoCaptureLockRef (run arming_failure initial)"
    "checksInFlight (run (arming_failure @ [IntervalFires 4 1800, IntervalFires 4 2250]) initial) = 0"
    unfolding arming_failure_def run_append session_arming_state by (simp_all add: eval_defs)
  show ?thesis using v b c by simp
qed

text \<open>
  Claim C8, as stated, says that at most one fiducial check is in flight at any time.
  The in-progress mark is cleared when the camera is closed, while the check that set
  it may still wait for the service.  In \<open>reopened_session\<close> one check is in flight
  when the polling timer of the new session fires, and that tick begins a second one.
\<close>

theorem second_check_after_reopening_counterexample:
  "checksInFlight (run reopened_session initial) = 2 \<and>
   checksInFlight (run (butlast reopened_session) initial) = 1 \<and>
   last reopened_session = IntervalFires 8 2550 \<and>
   map_of (callbacks (run (butlast reopened_session) initial)) 8 = Some (FiducialPoll, 450)"
  by (simp add: reopened_session_def eval_defs)

text \<open>
  Claim C8, amended.  While a check is marked in progress, or the lock is held, or the
  camera is not ready, the check function and the polling callback return without
  taking a snapshot or changing the screen.  A check that begins finds the mark clear
  and sets it.  Starting from any reachable screen with no check in flight, at most one
  check is in flight for as long as the monitoring effect does not run again, that is
  within one camera session; whatever else happens.
\<close>

theorem fiducial_checks_are_throttled:
  "(fiducialCheckInProgressRef t \<or> autoCaptureLockRef t \<or> \<not> cameraReady t \<longrightarrow>
      checkFiducials_begin t = t \<and> fiducialPollTick t = t)
   \<and> (checkFiducials_begin t \<noteq> t \<longrightarrow>
        \<not> fiducialCheckInProgressRef t \<and> fiducialCheckInProgressRef (checkFiducials_begin t) \<and>
        checksInFlight (checkFiducials_begin t) = Suc (checksInFlight t))
   \<and> (checksInFlight (run es initial) = 0 \<and> list_all (\<lambda>e. \<not> isMonitoringEffect e) es' \<longrightarrow>
        checksInFlight (run es' (run es initial)) \<le> 1)"
proof (intro conjI impI)
  assume "fiducialCheckInProgressRef t \<or> autoCaptureLockRef t \<or> \<not> cameraReady t"
  then show "checkFiducials_begin t = t" "fiducialPollTick t = t"
    by (auto simp: checkFiducials_begin_def fiducialPollTick_def)
next
  assume "checkFiducials_begin t \<noteq> t"
  then have "\<not> (\<not> cameraRef t \<or> \<not> cameraReady t \<or> fiducialCheckInProgressRef t \<or> autoCaptureLockRef t)"
    unfolding checkFiducials_begin_def by (auto split: if_splits)
  then show "\<not> fiducialCheckInProgressRef t" "fiducialCheckInProgressRef (checkFiducials_begin t)"
    "checksInFlight (checkFiducials_begin t) = Suc (checksInFlight t)"
    by (simp_all add: checkFiducials_begin_def)
next
  assume a: "checksInFlight (run es initial) = 0 \<and> list_all (\<lambda>e. \<not> isMonitoringEffect e) es'"
  then have "throttled (run es initial)" by (simp add: throttled_def)
  with a have "throttled (run es' (run es initial))"
    by (intro throttled_run [OF inv_reachable]) simp_all
  then show "checksInFlight (run es' (run es initial)) \<le> 1" by (simp add: throttled_def)
qed

text \<open>
  An instance: in the arming session a check begins at the tick of time 1350; the
  next tick is skipped; closing, opening and a late tick of the cleared timer begin
  no other check.
\<close>

theorem fiducial_checks_are_throttled_witness:
  "fiducialCheckInProgressRef (step (IntervalFires 4 1350) (run session_arming initial)) \<and>
   fiducialPollTick (step (IntervalFires 4 1350) (run session_arming initial))
     = step (IntervalFires 4 1350) (run session_arming initial) \<and>
   checkFiducials_begin (run session_arming initial) \<noteq> run session_arming initial \<and>
   checksInFlight (checkFiducials_begin (run session_arming initial)) = 1 \<and>
   checksInFlight (run session_arming initial) = 0 \<and>
   list_all (\<lambda>e. \<not> isMonitoringEffect e)
     [IntervalFires 4 1350, IntervalFires 4 1800, CloseCamera, OpenCamera True, CameraReady,
      IntervalFires 4 2250] \<and>
   checksInFlight (run [IntervalFires 4 1350, IntervalFires 4 1800, CloseCamera, OpenCamera True,
      CameraReady, IntervalFires 4 2250] (run session_arming initial)) \<le> 1"
proof -
  have p: "fiducialCheckInProgressRef (step (IntervalFires 4 1350) (run session_arming initial))"
    unfolding session_arming_state by (simp add: eval_defs)
  have z: "checksInFlight (run session_arming initial) = 0"
    "checkFiducials_begin (run session_arming initial) \<noteq> run session_arming initial"
    unfolding session_arming_state by (simp_all add: eval_defs)
  have l: "list_all (\<lambda>e. \<not> isMonitoringEffect e)
     [IntervalFires 4 1350, IntervalFires 4 1800, CloseCamera, OpenCamera True, CameraReady,
      IntervalFires 4 2250]" by simp
  note w1 = fiducial_checks_are_throttled
    [of "step (IntervalFires 4 1350) (run session_arming initial)" session_arming
        "[IntervalFires 4 1350, IntervalFires 4 1800, CloseCamera, OpenCamera True, CameraReady,
          IntervalFires 4 2250]"]
  note w2 = fiducial_checks_are_throttled [of "run session_arming initial" "[]" "[]"]
  show ?thesis using w1 w2 p z l by simp
qed

text \<open>
  Claim C9, as stated, says that a session opened again starts with no state carried
  over.  Closing the camera does not cancel a fiducial check that waits for the service,
  and \<^verbatim>\<open>checkFiducials\<close> stores the result when it arrives, whether the camera is still
  open or not.  In \<open>stale_result_session\<close> it arrives while the camera is closed, and
  opening the camera resets no fiducial state: the session opened after it starts with
  fiducial count 4, quality 0.9 and the ready flag set, where a first session starts with
  0, 0 and the flag off.
\<close>

theorem stale_fiducial_result_after_reopening_counterexample:
  "fiducialCount (run stale_result_session initial) = 4 \<and>
   fiducialQuality (run stale_result_session initial) = 0.9 \<and>
   fiducialReady (run stale_result_session initial) \<and>
   cameraVisible (run stale_result_session initial) \<and>
   checksInFlight (run stale_result_session initial) = 0 \<and>
   fiducialCount (run [OpenCamera True, MonitoringEffect, AutoCaptureEffect 2000] initial) = 0 \<and>
   fiducialQuality (run [OpenCamera True, MonitoringEffect, AutoCaptureEffect 2000] initial) = 0 \<and>
   \<not> fiducialReady (run [OpenCamera True, MonitoringEffect, AutoCaptureEffect 2000] initial)"
  by (simp add: stale_result_session_def pending_check_def eval_defs)

text \<open>
  Claim C9, amended.  Closing the camera on any reachable screen gives the initial screen
  again, but for the auto-capture switch, the error text, and the bookkeeping of handles
  and suspended calls: the alignment score, the fiducial count and quality and the
  countdown are 0, the fiducial ready flag and the lock are off, the listener and both
  timers are removed and no callback stays registered, the last sample and the
  in-progress mark are cleared.  A fiducial check that is suspended stays suspended.  If
  none is, then whatever happens while the camera is closed, the session that opens next
  starts with the readiness state of a first session.  If a check is still suspended at
  some time after the close and its result arrives then, the result is stored, the
  auto-capture effect leaves it alone and opening the camera does not reset it: the
  session that opens next starts with the count, the quality and the ready flag of that
  result.
\<close>

theorem close_resets_but_keeps_pending_check:
  assumes "s = run es initial"
  shows "step CloseCamera s =
           initial\<lparr>autoCaptureEnabled := autoCaptureEnabled s, cameraError := cameraError s,
             nextId := nextId s, monitoringCleanup := monitoringCleanup s,
             checksInFlight := checksInFlight s, capturesInFlight := capturesInFlight s,
             processingInFlight := processingInFlight s, autoCaptureFired := autoCaptureFired s\<rparr>
       \<and> alignmentScore (step CloseCamera s) = Fin 0
       \<and> fiducialCount (step CloseCamera s) = 0
       \<and> fiducialQuality (step CloseCamera s) = 0
       \<and> \<not> fiducialReady (step CloseCamera s)
       \<and> autoCaptureCountdown (step CloseCamera s) = 0
       \<and> \<not> autoCaptureLockRef (step CloseCamera s)
       \<and> accelerometerSubscriptionRef (step CloseCamera s) = None
       \<and> autoCaptureTimerRef (step CloseCamera s) = None
       \<and> fiducialCheckIntervalRef (step CloseCamera s) = None
       \<and> callbacks (step CloseCamera s) = []
       \<and> lastAccelSampleRef (step CloseCamera s) = None
       \<and> \<not> fiducialCheckInProgressRef (step CloseCamera s)
       \<and> checksInFlight (step CloseCamera s) = checksInFlight s
       \<and> (checksInFlight s = 0 \<and> list_all (\<lambda>e. \<not> isGrantedOpen e) es' \<longrightarrow>
            readiness (step (OpenCamera True) (run es' (step CloseCamera s)))
              = readiness (step (OpenCamera True) initial))
       \<and> (0 < checksInFlight (run es1 (step CloseCamera s)) \<and> uri \<noteq> [] \<and>
          list_all isAutoCaptureEffect es2 \<longrightarrow>
            fiducials (step (OpenCamera True)
                (run es2 (step (CheckSettles (Snapshot (Some uri)) (Response True (Some r)))
                   (run es1 (step CloseCamera s)))))
              = reported r)"
proof -
  have i: "screen_inv s" unfolding assms by (rule inv_reachable)
  note e = step_close_eq [OF i]
  have fields: "alignmentScore (step CloseCamera s) = Fin 0
       \<and> fiducialCount (step CloseCamera s) = 0
       \<and> fiducialQuality (step CloseCamera s) = 0
       \<and> \<not> fiducialReady (step CloseCamera s)
       \<and> autoCaptureCountdown (step CloseCamera s) = 0
       \<and> \<not> autoCaptureLockRef (step CloseCamera s)
       \<and> accelerometerSubscriptionRef (step CloseCamera s) = None
       \<and> autoCaptureTimerRef (step CloseCamera s) = None
       \<and> fiducialCheckIntervalRef (step CloseCamera s) = None
       \<and> callbacks (step CloseCamera s) = []
       \<and> lastAccelSampleRef (step CloseCamera s) = None
       \<and> \<not> fiducialCheckInProgressRef (step CloseCamera s)
       \<and> checksInFlight (step CloseCamera s) = checksInFlight s"
    unfolding e by (simp add: initial_def)
  have clean: "readiness (step (OpenCamera True) (run es' (step CloseCamera s)))
              = readiness (step (OpenCamera True) initial)"
    if "checksInFlight s = 0 \<and> list_all (\<lambda>e. \<not> isGrantedOpen e) es'"
  proof -
    have "closed_clean (step CloseCamera s)"
      unfolding e using that by (simp add: closed_clean_def readiness_def initial_def)
    then have "closed_clean (run es' (step CloseCamera s))"
      using that by (intro closed_clean_run) simp_all
    then show ?thesis by (rule closed_clean_reopen)
  qed
  have stale: "fiducials (step (OpenCamera True)
                (run es2 (step (CheckSettles (Snapshot (Some uri)) (Response True (Some r)))
                   (run es1 (step CloseCamera s)))))
              = reported r"
    if "0 < checksInFlight (run es1 (step CloseCamera s)) \<and> uri \<noteq> [] \<and>
          list_all isAutoCaptureEffect es2"
    using that by (simp add: open_keeps_fiducials effects_keep_fiducials settle_stores_result)
  show ?thesis using e fields clean stale by blast
qed

text \<open>
  Two instances: closing the camera during the countdown of the arming session, with no
  check suspended, and opening it again after the effects have run; and closing it while
  the check of \<open>pending_check\<close> is suspended, whose result then arrives, with the
  effects that React runs in between.
\<close>

theorem close_resets_but_keeps_pending_check_witness:
  "checksInFlight (run session_arming initial) = 0 \<and>
   callbacks (run session_arming initial)
     = [(3, MotionListener, 150), (4, FiducialPoll, 450), (5, Countdown 900, 120)] \<and>
   alignmentScore (run session_arming initial) = Fin 0.6975 \<and>
   callbacks (step CloseCamera (run session_arming initial)) = [] \<and>
   alignmentScore (step CloseCamera (run session_arming initial)) = Fin 0 \<and>
   fiducialCount (step CloseCamera (run session_arming initial)) = 0 \<and>
   readiness (step (OpenCamera True)
       (run [MonitoringEffect, AutoCaptureEffect 2000] (step CloseCamera (run session_arming initial))))
     = readiness (step (OpenCamera True) initial) \<and>
   checksInFlight (run pending_check initial) = 1 \<and>
   checksInFlight (run [MonitoringEffect, AutoCaptureEffect 800]
       (step CloseCamera (run pending_check initial))) = 1 \<and>
   reported example_result = (4, 0.9, True) \<and>
   fiducials (step (OpenCamera True)
       (run [AutoCaptureEffect 900]
          (step (CheckSettles (Snapshot (Some ''snapshot.jpg'')) (Response True (Some example_result)))
             (run [MonitoringEffect, AutoCaptureEffect 800]
                (step CloseCamera (run pending_check initial))))))
     = (4, 0.9, True)"
proof -
  have a: "callbacks (run session_arming initial)
     = [(3, MotionListener, 150), (4, FiducialPoll, 450), (5, Countdown 900, 120)]"
    "alignmentScore (run session_arming initial) = Fin 0.6975"
    "checksInFlight (run session_arming initial) = 0"
    unfolding session_arming_state by (simp_all add: initial_def)
  have p: "checksInFlight (run pending_check initial) = 1"
    "checksInFlight (run [MonitoringEffect, AutoCaptureEffect 800]
       (step CloseCamera (run pending_check initial))) = 1"
    by (simp_all add: pending_check_def eval_defs)
  have d: "reported example_result = (4, 0.9, True)"
    by (simp add: reported_def fiducials_def applyFiducialResult_def example_result_def)
  note w1 = close_resets_but_keeps_pending_check
    [OF refl, where es = session_arming and es' = "[MonitoringEffect, AutoCaptureEffect 2000]"
       and ?es1.0 = "[]" and ?es2.0 = "[]" and uri = "[]", THEN conjunct2]
  note w2 = close_resets_but_keeps_pending_check
    [OF refl, where es = pending_check and es' = "[]"
       and ?es1.0 = "[MonitoringEffect, AutoCaptureEffect 800]"
       and ?es2.0 = "[AutoCaptureEffect 900]" and uri = "''snapshot.jpg''" and r = example_result,
     THEN conjunct2]
  show ?thesis using w1 w2 a p d by simp
qed

text \<open>
  Claim C10.  A fiducial check that fails before the service answers leaves the stored
  fiducial count, quality and ready flag as they are, and the in-progress mark is off
  when it returns.  Without a camera reference, on a reachable screen, the check
  returns at the guard and nothing changes; the mark is off because the camera is
  closed.  When taking the snapshot throws, or the snapshot has no uri, the fiducial
  fields and the callbacks are unchanged, the mark is cleared, and a tick of the
  polling timer on a ready, unlocked screen begins the next check.  A network failure
  with a usable snapshot, by contrast, stores the zeros of the sentinel.
\<close>

theorem early_failure_keeps_fiducial_state:
  "(s = run es initial \<and> \<not> cameraRef s \<longrightarrow>
      checkFiducials_begin s = s \<and> \<not> fiducialCheckInProgressRef (checkFiducials_begin s))
   \<and> (snap = SnapshotThrows \<or> snap = Snapshot None \<or> snap = Snapshot (Some []) \<longrightarrow>
        fiducialCount (checkFiducials_settle snap net t) = fiducialCount t \<and>
        fiducialQuality (checkFiducials_settle snap net t) = fiducialQuality t \<and>
        fiducialReady (checkFiducials_settle snap net t) = fiducialReady t \<and>
        \<not> fiducialCheckInProgressRef (checkFiducials_settle snap net t) \<and>
        callbacks (checkFiducials_settle snap net t) = callbacks t \<and>
        (cameraRef t \<and> cameraReady t \<and> \<not> autoCaptureLockRef t \<longrightarrow>
           checksInFlight (fiducialPollTick (checkFiducials_settle snap net t))
             = Suc (checksInFlight (checkFiducials_settle snap net t))))
   \<and> (uri \<noteq> [] \<and> (net = FetchThrows \<or> net = Response False body) \<longrightarrow>
        fiducialCount (checkFiducials_settle (Snapshot (Some uri)) net t) = 0 \<and>
        fiducialQuality (checkFiducials_settle (Snapshot (Some uri)) net t) = 0 \<and>
        \<not> fiducialReady (checkFiducials_settle (Snapshot (Some uri)) net t))"
proof (intro conjI impI)
  assume a: "s = run es initial \<and> \<not> cameraRef s"
  then have e: "s = run es initial" and r: "\<not> cameraRef s" by blast+
  have "screen_inv s" unfolding e by (rule inv_reachable)
  with r have "\<not> fiducialCheckInProgressRef s" by (auto simp: screen_inv_def inv0_def)
  with r show "checkFiducials_begin s = s" "\<not> fiducialCheckInProgressRef (checkFiducials_begin s)"
    by (simp_all add: checkFiducials_begin_def)
next
  assume a: "snap = SnapshotThrows \<or> snap = Snapshot None \<or> snap = Snapshot (Some [])"
  then have e: "checkFiducials_settle snap net t =
      t\<lparr>fiducialCheckInProgressRef := False, checksInFlight := checksInFlight t - 1\<rparr>"
    by (auto simp: checkFiducials_settle_def)
  show "fiducialCount (checkFiducials_settle snap net t) = fiducialCount t"
    "fiducialQuality (checkFiducials_settle snap net t) = fiducialQuality t"
    "fiducialReady (checkFiducials_settle snap net t) = fiducialReady t"
    "\<not> fiducialCheckInProgressRef (checkFiducials_settle snap net t)"
    "callbacks (checkFiducials_settle snap net t) = callbacks t"
    by (simp_all add: e)
  assume "cameraRef t \<and> cameraReady t \<and> \<not> autoCaptureLockRef t"
  then show "checksInFlight (fiducialPollTick (checkFiducials_settle snap net t))
             = Suc (checksInFlight (checkFiducials_settle snap net t))"
    by (simp add: e fiducialPollTick_def checkFiducials_begin_def)
next
  assume "uri \<noteq> [] \<and> (net = FetchThrows \<or> net = Response False body)"
  then have "validateFiducials (Some uri) net = Inr sentinel" and "uri \<noteq> []"
    by (auto simp: validateFiducials_def)
  then show "fiducialCount (checkFiducials_settle (Snapshot (Some uri)) net t) = 0"
    "fiducialQuality (checkFiducials_settle (Snapshot (Some uri)) net t) = 0"
    "\<not> fiducialReady (checkFiducials_settle (Snapshot (Some uri)) net t)"
    by (simp_all add: checkFiducials_settle_def applyFiducialResult_def sentinel_def)
qed

text \<open>
  An instance: the check on a closed camera, and the check that began at time 1350 in
  the arming session, first with a snapshot that throws, then with a failing request.
\<close>

theorem early_failure_keeps_fiducial_state_witness:
  "\<not> cameraRef (run [CloseCamera] initial) \<and>
   checkFiducials_begin (run [CloseCamera] initial) = run [CloseCamera] initial \<and>
   cameraRef (step (IntervalFires 4 1350) (run session_arming initial)) \<and>
   cameraReady (step (IntervalFires 4 1350) (run session_arming initial)) \<and>
   \<not> autoCaptureLockRef (step (IntervalFires 4 1350) (run session_arming initial)) \<and>
   fiducialCheckInProgressRef (step (IntervalFires 4 1350) (run session_arming initial)) \<and>
   fiducialCount (checkFiducials_settle SnapshotThrows FetchThrows
      (step (IntervalFires 4 1350) (run session_arming initial))) = 4 \<and>
   \<not> fiducialCheckInProgressRef (checkFiducials_settle SnapshotThrows FetchThrows
      (step (IntervalFires 4 1350) (run session_arming initial))) \<and>
   fiducialCount (checkFiducials_settle (Snapshot (Some ''snapshot.jpg'')) FetchThrows
      (step (IntervalFires 4 1350) (run session_arming initial))) = 0"
proof -
  have c: "\<not> cameraRef (run [CloseCamera] initial)"
    by (simp add: eval_defs)
  have p: "cameraRef (step (IntervalFires 4 1350) (run session_arming initial))"
    "cameraReady (step (IntervalFires 4 1350) (run session_arming initial))"
    "\<not> autoCaptureLockRef (step (IntervalFires 4 1350) (run session_arming initial))"
    "fiducialCheckInProgressRef (step (IntervalFires 4 1350) (run session_arming initial))"
    "fiducialCount (step (IntervalFires 4 1350) (run session_arming initial)) = 4"
    unfolding session_arming_state by (simp_all add: eval_defs)
  note w1 = early_failure_keeps_fiducial_state
    [of "run [CloseCamera] initial" "[CloseCamera]" SnapshotThrows FetchThrows
        "step (IntervalFires 4 1350) (run session_arming initial)" "''snapshot.jpg''" None]
  show ?thesis using w1 c p by simp
qed

end
